theory Spec2Isabelle
  imports Complex_Main
begin

section \<open>Errors and results\<close>

text \<open>
  The solvers of \<^verbatim>\<open>qiskit_dynamics/solvers/fixed_step_solvers.py\<close> are modelled over exact
  real and complex arithmetic; the step counts of the time grid are modelled in double precision
  as well. Every exception that the module or one of its helpers raises is a
  value of type \<open>error\<close>; a call either returns \<open>Inr\<close> of its value or \<open>Inl\<close> of the error
  that aborted it.
\<close>

datatype error =
    QiskitError          \<comment> \<open>raised by \<open>get_exponential_take_step\<close>\<close>
  | ValueError           \<comment> \<open>shape mismatch, reduction of an empty array, mapping over nothing\<close>
  | IndexError           \<comment> \<open>index out of range\<close>
  | TypeError            \<comment> \<open>a callable applied to the wrong number of arguments\<close>
  | InvalidGridError     \<comment> \<open>malformed \<open>t_eval\<close>\<close>
  | MissingPointError    \<comment> \<open>requested point absent from the grid\<close>
  | MissingLibraryError  \<comment> \<open>\<open>requires_array_library\<close>: the array library is not installed\<close>
  | UserError nat        \<comment> \<open>an exception raised by a caller-supplied callable\<close>

type_synonym 'a result = "error + 'a"

definition bindR :: "'a result \<Rightarrow> ('a \<Rightarrow> 'b result) \<Rightarrow> 'b result" where
  "bindR m f = (case m of Inl e \<Rightarrow> Inl e | Inr x \<Rightarrow> f x)"

section \<open>The time grid\<close>

subsection \<open>Merging \<open>t_span\<close> and \<open>t_eval\<close>\<close>

definition in_span :: "real \<times> real \<Rightarrow> real \<Rightarrow> bool" where
  "in_span t_span t =
     (min (fst t_span) (snd t_span) \<le> t \<and> t \<le> max (fst t_span) (snd t_span))"

fun ordered_along :: "real \<Rightarrow> real list \<Rightarrow> bool" where
  "ordered_along d (a # b # rest) = (0 < d * (b - a) \<and> ordered_along d (b # rest))"
| "ordered_along d [a] = True"
| "ordered_along d [] = True"

text \<open>
  Modelled from the spec: \<open>merge_t_args\<close> of \<^verbatim>\<open>solver_utils.py\<close>, which is not among the
  sources. The spec's TimeGrid Builder merges the endpoints of \<open>t_span\<close> with \<open>t_eval\<close> into one
  breakpoint sequence, without repeating an endpoint that \<open>t_eval\<close> already starts or ends with,
  and fails when \<open>t_eval\<close> has a point outside the span or is not sorted in the direction of
  integration.
\<close>

definition merge_t_args :: "real \<times> real \<Rightarrow> real list option \<Rightarrow> real list result" where
  "merge_t_args t_span t_eval =
     (case t_eval of
        None \<Rightarrow> Inr [fst t_span, snd t_span]
      | Some ts \<Rightarrow>
          if \<not> list_all (in_span t_span) ts then Inl InvalidGridError
          else if \<not> ordered_along (sgn (snd t_span - fst t_span)) ts then Inl InvalidGridError
          else Inr ((if ts \<noteq> [] \<and> hd ts = fst t_span then [] else [fst t_span]) @ ts @
                    (if ts \<noteq> [] \<and> last ts = snd t_span then [] else [snd t_span])))"

subsection \<open>\<open>get_fixed_step_sizes\<close>\<close>

text \<open>\<open>np.diff\<close>: the differences of consecutive entries.\<close>

fun np_diff :: "real list \<Rightarrow> real list" where
  "np_diff (a # b # rest) = (b - a) # np_diff (b # rest)"
| "np_diff [a] = []"
| "np_diff [] = []"

text \<open>
  \<open>np.abs(delta_t_list / max_dt).astype(int)\<close>: the conversion truncates towards zero, which on
  a non-negative number is the floor. The count is never negative, so it is a \<open>nat\<close>.
\<close>

definition initial_n_steps :: "real \<Rightarrow> real \<Rightarrow> nat" where
  "initial_n_steps max_dt delta_t = nat \<lfloor>\<bar>delta_t / max_dt\<bar>\<rfloor>"

text \<open>
  One iteration of the loop that corrects rounding errors. The bound \<open>1 + 1e-15\<close> is a sum of
  doubles: its value is the double nearest to \<open>1 + 10\<^sup>-\<^sup>1\<^sup>5\<close>, which is
  \<open>1 + 5 / 2 ^ 52\<close>, the doubles next to 1 being \<open>2 ^ 52\<close>-ths apart.
\<close>

definition correct_n_steps :: "real \<Rightarrow> real \<Rightarrow> nat \<Rightarrow> nat" where
  "correct_n_steps max_dt delta_t n_steps =
     (if n_steps = 0 then 1
      else if \<bar>delta_t / real n_steps\<bar> / max_dt > 1 + 5 / 2 ^ 52 then n_steps + 1
      else n_steps)"

fun correct_rounding :: "real \<Rightarrow> real list \<Rightarrow> nat list \<Rightarrow> nat list" where
  "correct_rounding max_dt (delta_t # ds) (n_steps # ns) =
     correct_n_steps max_dt delta_t n_steps # correct_rounding max_dt ds ns"
| "correct_rounding max_dt [] ns = ns"
| "correct_rounding max_dt ds [] = []"

definition get_fixed_step_sizes ::
  "real \<times> real \<Rightarrow> real list option \<Rightarrow> real \<Rightarrow> (real list \<times> real list \<times> nat list) result" where
  "get_fixed_step_sizes t_span t_eval max_dt =
     bindR (merge_t_args t_span t_eval) (\<lambda>t_list.
       let delta_t_list = np_diff t_list;
           n_steps_list = map (initial_n_steps max_dt) delta_t_list;
           n_steps_list = correct_rounding max_dt delta_t_list n_steps_list;
           h_list = map2 (\<lambda>delta_t n_steps. delta_t / real n_steps) delta_t_list n_steps_list
       in Inr (t_list, h_list, n_steps_list))"

text \<open>The step count of one interval, as the two passes over \<open>n_steps_list\<close> compute it.\<close>

definition n_steps_of :: "real \<Rightarrow> real \<Rightarrow> nat" where
  "n_steps_of max_dt delta_t = correct_n_steps max_dt delta_t (initial_n_steps max_dt delta_t)"

text \<open>The condition under which \<open>merge_t_args\<close> accepts \<open>t_eval\<close>.\<close>

definition valid_t_eval :: "real \<times> real \<Rightarrow> real list option \<Rightarrow> bool" where
  "valid_t_eval t_span t_eval =
     (case t_eval of
        None \<Rightarrow> True
      | Some ts \<Rightarrow> list_all (in_span t_span) ts \<and>
                  ordered_along (sgn (snd t_span - fst t_span)) ts)"

text \<open>
  The step count in the words of the spec: the ceiling of \<open>|delta| / max_dt\<close>, at least 1, and
  one more when the step \<open>|delta| / n\<close> still exceeds \<open>max_dt\<close> by more than the relative
  tolerance \<open>1e-15\<close>.
\<close>

definition spec_step_count :: "real \<Rightarrow> real \<Rightarrow> nat" where
  "spec_step_count max_dt delta =
     (let n = max 1 (nat \<lceil>\<bar>delta\<bar> / max_dt\<rceil>)
      in if \<bar>delta\<bar> / real n > max_dt * (1 + 1 / 10 ^ 15) then n + 1 else n)"

subsection \<open>\<open>get_fixed_step_sizes\<close> in double precision\<close>

text \<open>
  The loop of \<open>get_fixed_step_sizes\<close> corrects rounding errors, so what it computes depends on
  the rounding. NumPy computes in IEEE doubles: the result of every arithmetic operation is the
  real result rounded to the nearest number with a significand of 53 bits, a tie going to the
  even significand. \<open>fl\<close> is this rounding; \<open>\<lfloor>log 2 x\<rfloor>\<close> is the exponent of \<open>x\<close> and
  \<open>2 powi (\<lfloor>log 2 x\<rfloor> - 52)\<close> the distance of the doubles next to \<open>x\<close>. The range of the exponent is
  not modelled: there is no overflow and no gradual underflow, which concerns numbers of
  magnitude above \<open>2\<^sup>1\<^sup>0\<^sup>2\<^sup>3\<close> or below \<open>2\<^sup>-\<^sup>1\<^sup>0\<^sup>2\<^sup>2\<close> only.
\<close>

definition round_even :: "real \<Rightarrow> int" where
  "round_even y =
     (let f = \<lfloor>y\<rfloor>; r = y - of_int f
      in if r < 1 / 2 then f else if 1 / 2 < r then f + 1 else if even f then f else f + 1)"

definition fl_pos :: "real \<Rightarrow> real" where
  "fl_pos x = (let g = 2 powi (\<lfloor>log 2 x\<rfloor> - 52) in of_int (round_even (x / g)) * g)"

definition fl :: "real \<Rightarrow> real" where
  "fl x = (if x = 0 then 0 else sgn x * fl_pos \<bar>x\<bar>)"

text \<open>
  The function once more, each operation followed by the rounding: the differences of
  \<open>np.diff\<close>, the quotient by \<open>max_dt\<close>, the conversion of the integer \<open>n_steps\<close> to a double
  and the quotients by it. The absolute value and the truncation are exact, and the bound
  \<open>1 + 1e-15\<close> is the double \<open>1 + 5 / 2 ^ 52\<close>.
\<close>

definition initial_n_steps_double :: "real \<Rightarrow> real \<Rightarrow> nat" where
  "initial_n_steps_double max_dt delta_t = nat \<lfloor>\<bar>fl (delta_t / max_dt)\<bar>\<rfloor>"

definition correct_n_steps_double :: "real \<Rightarrow> real \<Rightarrow> nat \<Rightarrow> nat" where
  "correct_n_steps_double max_dt delta_t n_steps =
     (if n_steps = 0 then 1
      else if fl (\<bar>fl (delta_t / fl (real n_steps))\<bar> / max_dt) > 1 + 5 / 2 ^ 52
      then n_steps + 1
      else n_steps)"

fun correct_rounding_double :: "real \<Rightarrow> real list \<Rightarrow> nat list \<Rightarrow> nat list" where
  "correct_rounding_double max_dt (delta_t # ds) (n_steps # ns) =
     correct_n_steps_double max_dt delta_t n_steps # correct_rounding_double max_dt ds ns"
| "correct_rounding_double max_dt [] ns = ns"
| "correct_rounding_double max_dt ds [] = []"

definition get_fixed_step_sizes_double ::
  "real \<times> real \<Rightarrow> real list option \<Rightarrow> real \<Rightarrow> (real list \<times> real list \<times> nat list) result" where
  "get_fixed_step_sizes_double t_span t_eval max_dt =
     bindR (merge_t_args t_span t_eval) (\<lambda>t_list.
       let delta_t_list = map fl (np_diff t_list);
           n_steps_list = map (initial_n_steps_double max_dt) delta_t_list;
           n_steps_list = correct_rounding_double max_dt delta_t_list n_steps_list;
           h_list = map2 (\<lambda>delta_t n_steps. fl (delta_t / fl (real n_steps)))
                      delta_t_list n_steps_list
       in Inr (t_list, h_list, n_steps_list))"


section \<open>Arrays\<close>

text \<open>
  An array of the numerical library, with complex entries. The model covers arrays of dimension 0,
  1 and 2: a scalar, a vector, and a matrix given by its rows. A matrix value stands for an array
  only when its rows have one length (\<open>wf\<close>); arrays of higher dimension, and matrices with no
  rows but a positive number of columns, are outside the model.
\<close>

datatype ndarray = Scalar complex | Vec "complex list" | Mat "complex list list"

definition ncols :: "'a list list \<Rightarrow> nat" where
  "ncols m = (case m of [] \<Rightarrow> 0 | r # _ \<Rightarrow> length r)"

fun wf :: "ndarray \<Rightarrow> bool" where
  "wf (Mat m) = list_all (\<lambda>r. length r = ncols m) m"
| "wf (Vec v) = True"
| "wf (Scalar z) = True"

fun ndim :: "ndarray \<Rightarrow> nat" where
  "ndim (Scalar z) = 0"
| "ndim (Vec v) = 1"
| "ndim (Mat m) = 2"

fun shape :: "ndarray \<Rightarrow> nat list" where
  "shape (Scalar z) = []"
| "shape (Vec v) = [length v]"
| "shape (Mat m) = [length m, ncols m]"

text \<open>\<open>a.shape[-1]\<close>: the last axis; a scalar has none.\<close>

definition shape_last :: "ndarray \<Rightarrow> nat result" where
  "shape_last a = (if shape a = [] then Inl IndexError else Inr (last (shape a)))"

text \<open>The matrix with \<open>r\<close> rows and \<open>c\<close> columns whose entry at \<open>(i, j)\<close> is \<open>f i j\<close>.\<close>

definition mk :: "nat \<Rightarrow> nat \<Rightarrow> (nat \<Rightarrow> nat \<Rightarrow> 'a) \<Rightarrow> 'a list list" where
  "mk r c f = map (\<lambda>i. map (f i) [0..<c]) [0..<r]"

text \<open>\<open>eye(n)\<close>: the identity matrix.\<close>

definition eye :: "nat \<Rightarrow> ndarray" where
  "eye n = Mat (mk n n (\<lambda>i j. if i = j then 1 else 0))"

subsection \<open>Elementwise operations and broadcasting\<close>

text \<open>
  The elementwise operations broadcast: the shapes are aligned at the last axis, and along one
  axis two lengths are compatible when they are equal or one of them is 1, in which case the one
  entry is repeated. Incompatible lengths raise \<open>ValueError\<close>.
\<close>

definition bdim :: "nat \<Rightarrow> nat \<Rightarrow> nat result" where
  "bdim a b = (if a = b then Inr a else if a = 1 then Inr b else if b = 1 then Inr a
               else Inl ValueError)"

definition bidx :: "nat \<Rightarrow> nat \<Rightarrow> nat" where
  "bidx d i = (if d = 1 then 0 else i)"

fun rows2d :: "ndarray \<Rightarrow> complex list list" where
  "rows2d (Scalar z) = [[z]]"
| "rows2d (Vec v) = [v]"
| "rows2d (Mat m) = m"

definition from2d :: "nat \<Rightarrow> complex list list \<Rightarrow> ndarray" where
  "from2d d m = (if d = 0 then Scalar (m ! 0 ! 0) else if d = 1 then Vec (m ! 0) else Mat m)"

definition elementwise ::
  "(complex \<Rightarrow> complex \<Rightarrow> complex) \<Rightarrow> ndarray \<Rightarrow> ndarray \<Rightarrow> ndarray result" where
  "elementwise f a b =
     (let A = rows2d a; B = rows2d b in
      bindR (bdim (length A) (length B)) (\<lambda>r.
      bindR (bdim (ncols A) (ncols B)) (\<lambda>c.
        Inr (from2d (max (ndim a) (ndim b))
               (mk r c (\<lambda>i j. f (A ! bidx (length A) i ! bidx (ncols A) j)
                                (B ! bidx (length B) i ! bidx (ncols B) j)))))))"

definition np_add :: "ndarray \<Rightarrow> ndarray \<Rightarrow> ndarray result" where
  "np_add = elementwise (\<lambda>x y. x + y)"

definition np_sub :: "ndarray \<Rightarrow> ndarray \<Rightarrow> ndarray result" where
  "np_sub = elementwise (\<lambda>x y. x - y)"

fun map_entries :: "(complex \<Rightarrow> complex) \<Rightarrow> ndarray \<Rightarrow> ndarray" where
  "map_entries f (Scalar z) = Scalar (f z)"
| "map_entries f (Vec v) = Vec (map f v)"
| "map_entries f (Mat m) = Mat (map (map f) m)"

text \<open>The product of an array with a real number, and the quotient of an array by one.\<close>

definition np_scale :: "real \<Rightarrow> ndarray \<Rightarrow> ndarray" where
  "np_scale c = map_entries (\<lambda>z. of_real c * z)"

definition np_div :: "ndarray \<Rightarrow> real \<Rightarrow> ndarray" where
  "np_div a c = map_entries (\<lambda>z. z / of_real c) a"

subsection \<open>The matrix product\<close>

text \<open>
  \<open>a @ b\<close>: a vector on the left is a row, a vector on the right a column, two vectors give
  their (unconjugated) inner product, and a scalar operand or mismatched inner lengths raise
  \<open>ValueError\<close>.
\<close>

fun np_matmul :: "ndarray \<Rightarrow> ndarray \<Rightarrow> ndarray result" where
  "np_matmul (Mat A) (Mat B) =
     (if ncols A = length B
      then Inr (Mat (mk (length A) (ncols B) (\<lambda>i j. \<Sum>k<length B. A ! i ! k * B ! k ! j)))
      else Inl ValueError)"
| "np_matmul (Mat A) (Vec v) =
     (if ncols A = length v
      then Inr (Vec (map (\<lambda>i. \<Sum>k<length v. A ! i ! k * v ! k) [0..<length A]))
      else Inl ValueError)"
| "np_matmul (Vec u) (Mat B) =
     (if length u = length B
      then Inr (Vec (map (\<lambda>j. \<Sum>k<length B. u ! k * B ! k ! j) [0..<ncols B]))
      else Inl ValueError)"
| "np_matmul (Vec u) (Vec v) =
     (if length u = length v then Inr (Scalar (\<Sum>k<length v. u ! k * v ! k))
      else Inl ValueError)"
| "np_matmul (Scalar z) b = Inl ValueError"
| "np_matmul a (Scalar z) = Inl ValueError"

subsection \<open>Expressions\<close>

text \<open>
  The value of an expression is a result: an operator evaluates its left operand, then its right
  operand, and the first exception aborts the expression.
\<close>

definition lift2 :: "('a \<Rightarrow> 'b \<Rightarrow> 'c result) \<Rightarrow> 'a result \<Rightarrow> 'b result \<Rightarrow> 'c result" where
  "lift2 f x y = bindR x (\<lambda>a. bindR y (\<lambda>b. f a b))"

definition arr_add :: "ndarray result \<Rightarrow> ndarray result \<Rightarrow> ndarray result" where
  "arr_add = lift2 np_add"

definition arr_sub :: "ndarray result \<Rightarrow> ndarray result \<Rightarrow> ndarray result" where
  "arr_sub = lift2 np_sub"

definition arr_matmul :: "ndarray result \<Rightarrow> ndarray result \<Rightarrow> ndarray result" where
  "arr_matmul = lift2 np_matmul"

definition arr_scale :: "real \<Rightarrow> ndarray result \<Rightarrow> ndarray result" where
  "arr_scale c x = bindR x (\<lambda>a. Inr (np_scale c a))"

definition arr_div :: "ndarray result \<Rightarrow> real \<Rightarrow> ndarray result" where
  "arr_div x c = bindR x (\<lambda>a. Inr (np_div a c))"

section \<open>The step rules\<close>

type_synonym generator = "real \<Rightarrow> ndarray result"

text \<open>
  A call evaluates its arguments from left to right and then runs the body, so
  \<open>matrix_commutator\<close> takes the values of its two argument expressions.
\<close>

definition matrix_commutator :: "ndarray result \<Rightarrow> ndarray result \<Rightarrow> ndarray result" where
  "matrix_commutator m1 m2 =
     bindR m1 (\<lambda>a. bindR m2 (\<lambda>b.
       arr_sub (arr_matmul (Inr a) (Inr b)) (arr_matmul (Inr b) (Inr a))))"

subsection \<open>\<open>get_exponential_take_step\<close>\<close>

text \<open>
  The three inner functions \<open>propagator\<close>, one for each supported Magnus order. The matrix
  exponential \<open>expm_func\<close> is the argument of \<open>get_exponential_take_step\<close>; \<open>np.sqrt\<close> is the
  real square root.
\<close>

definition magnus1_propagator ::
  "(ndarray \<Rightarrow> ndarray result) \<Rightarrow> generator \<Rightarrow> real \<Rightarrow> real \<Rightarrow> ndarray result" where
  "magnus1_propagator expm_func generator t0 h =
     bindR (arr_scale h (generator (t0 + (h / 2)))) expm_func"

definition magnus2_propagator ::
  "(ndarray \<Rightarrow> ndarray result) \<Rightarrow> generator \<Rightarrow> real \<Rightarrow> real \<Rightarrow> ndarray result" where
  "magnus2_propagator expm_func generator t0 h =
     (let c1 = 0.5 - sqrt 3 / 6;
          c2 = 0.5 + sqrt 3 / 6;
          p2 = sqrt 3 / 12
      in bindR (generator (t0 + c1 * h)) (\<lambda>g1.
         bindR (generator (t0 + c2 * h)) (\<lambda>g2.
         bindR (arr_add (arr_div (arr_scale h (arr_add (Inr g1) (Inr g2))) 2)
                        (arr_scale (p2 * h ^ 2) (matrix_commutator (Inr g2) (Inr g1)))) (\<lambda>terms.
           expm_func terms))))"

definition magnus3_propagator ::
  "(ndarray \<Rightarrow> ndarray result) \<Rightarrow> generator \<Rightarrow> real \<Rightarrow> real \<Rightarrow> ndarray result" where
  "magnus3_propagator expm_func generator t0 h =
     (let d1 = 0.5 - sqrt 15 / 10;
          d2 = 0.5;
          d3 = 0.5 + sqrt 15 / 10;
          c0 = sqrt 15 / 3;
          c1 = 10.0 / 3
      in bindR (generator (t0 + d1 * h)) (\<lambda>g1.
         bindR (generator (t0 + d2 * h)) (\<lambda>g2.
         bindR (generator (t0 + d3 * h)) (\<lambda>g3.
         bindR (arr_scale h (Inr g2)) (\<lambda>a1.
         bindR (arr_scale (c0 * h) (arr_sub (Inr g3) (Inr g1))) (\<lambda>a2.
         bindR (arr_scale (c1 * h)
                  (arr_add (arr_sub (Inr g3) (arr_scale 2 (Inr g2))) (Inr g1))) (\<lambda>a3.
         bindR (matrix_commutator (Inr a1) (Inr a2)) (\<lambda>comm1.
         bindR (arr_div (matrix_commutator (arr_add (arr_scale 2 (Inr a3)) (Inr comm1)) (Inr a1))
                        60) (\<lambda>comm2.
         bindR (arr_add (arr_add (Inr a1) (arr_div (Inr a3) 12))
                  (arr_div (matrix_commutator
                              (arr_add (arr_sub (arr_scale (- 20) (Inr a1)) (Inr a3)) (Inr comm1))
                              (arr_add (Inr a2) (Inr comm2)))
                           240)) (\<lambda>terms.
           expm_func terms))))))))))"

text \<open>
  The function returned by \<open>get_exponential_take_step\<close> takes three arguments
  (\<open>just_propagator\<close>) or four. Calling it with the other number of arguments is a \<open>TypeError\<close>.
\<close>

datatype step_function =
    Propagator "generator \<Rightarrow> real \<Rightarrow> real \<Rightarrow> ndarray result"
  | TakeStep "generator \<Rightarrow> real \<Rightarrow> ndarray \<Rightarrow> real \<Rightarrow> ndarray result"

fun call3 :: "step_function \<Rightarrow> generator \<Rightarrow> real \<Rightarrow> real \<Rightarrow> ndarray result" where
  "call3 (Propagator p) generator t h = p generator t h"
| "call3 (TakeStep f) generator t h = Inl TypeError"

fun call4 :: "step_function \<Rightarrow> generator \<Rightarrow> real \<Rightarrow> ndarray \<Rightarrow> real \<Rightarrow> ndarray result" where
  "call4 (TakeStep f) generator t y h = f generator t y h"
| "call4 (Propagator p) generator t y h = Inl TypeError"

definition get_exponential_take_step ::
  "int \<Rightarrow> (ndarray \<Rightarrow> ndarray result) \<Rightarrow> bool \<Rightarrow> step_function result" where
  "get_exponential_take_step magnus_order expm_func just_propagator =
     bindR (if magnus_order = 1 then Inr (magnus1_propagator expm_func)
            else if magnus_order = 2 then Inr (magnus2_propagator expm_func)
            else if magnus_order = 3 then Inr (magnus3_propagator expm_func)
            else Inl QiskitError) (\<lambda>propagator.
       if just_propagator then Inr (Propagator propagator)
       else Inr (TakeStep (\<lambda>generator t0 y h.
                   arr_matmul (propagator generator t0 h) (Inr y))))"

subsection \<open>The Runge-Kutta steps\<close>

text \<open>The inner function \<open>take_step\<close> of \<open>RK4_solver\<close>.\<close>

definition RK4_take_step ::
  "(real \<Rightarrow> ndarray \<Rightarrow> ndarray result) \<Rightarrow> real \<Rightarrow> ndarray \<Rightarrow> real \<Rightarrow> ndarray result" where
  "RK4_take_step rhs_func t y h =
     (let div6 = 1.0 / 6;
          h2 = 0.5 * h;
          t_plus_h2 = t + h2
      in bindR (rhs_func t y) (\<lambda>k1.
         bindR (bindR (arr_add (Inr y) (arr_scale h2 (Inr k1))) (rhs_func t_plus_h2)) (\<lambda>k2.
         bindR (bindR (arr_add (Inr y) (arr_scale h2 (Inr k2))) (rhs_func t_plus_h2)) (\<lambda>k3.
         bindR (bindR (arr_add (Inr y) (arr_scale h (Inr k3))) (rhs_func (t + h))) (\<lambda>k4.
           arr_add (Inr y)
             (arr_scale (div6 * h)
                (arr_add (arr_add (arr_add (Inr k1) (arr_scale 2 (Inr k2)))
                                  (arr_scale 2 (Inr k3)))
                         (Inr k4))))))))"

text \<open>
  The inner function \<open>take_step\<close> of \<open>jax_RK4_parallel_solver\<close>; \<open>ident\<close> is the variable of the
  enclosing function.
\<close>

definition jax_RK4_parallel_take_step ::
  "ndarray \<Rightarrow> generator \<Rightarrow> real \<Rightarrow> real \<Rightarrow> ndarray result" where
  "jax_RK4_parallel_take_step ident generator t h =
     (let div6 = 1.0 / 6;
          h2 = 0.5 * h
      in bindR (generator (t + h2)) (\<lambda>gh2.
         bindR (generator t) (\<lambda>k1.
         bindR (arr_matmul (Inr gh2) (arr_add (Inr ident) (arr_scale h2 (Inr k1)))) (\<lambda>k2.
         bindR (arr_matmul (Inr gh2) (arr_add (Inr ident) (arr_scale h2 (Inr k2)))) (\<lambda>k3.
         bindR (arr_matmul (generator (t + h))
                           (arr_add (Inr ident) (arr_scale h (Inr k3)))) (\<lambda>k4.
           arr_add (Inr ident)
             (arr_scale (div6 * h)
                (arr_add (arr_add (arr_add (Inr k1) (arr_scale 2 (Inr k2)))
                                  (arr_scale 2 (Inr k3)))
                         (Inr k4)))))))))"

section \<open>The solver templates\<close>

text \<open>The result object: the times and the values at these times.\<close>

record 'y OdeResult =
  ode_t :: "real list"
  ode_y :: "'y list"

text \<open>
  Modelled from the spec: \<open>trim_t_results\<close> of \<^verbatim>\<open>solver_utils.py\<close>, which is not among the
  sources. The spec's Result Assembler restricts the trajectory to the requested evaluation
  points, and fails when a requested point is not a breakpoint of the grid. Without requested
  points the trajectory is returned as it is.
\<close>

definition trim_t_results :: "'y OdeResult \<Rightarrow> real list option \<Rightarrow> 'y OdeResult result" where
  "trim_t_results results t_eval =
     (case t_eval of
        None \<Rightarrow> Inr results
      | Some ts \<Rightarrow>
          if list_ex (\<lambda>t. t \<notin> set (ode_t results)) ts then Inl MissingPointError
          else let kept = filter (\<lambda>p. fst p \<in> set ts) (zip (ode_t results) (ode_y results))
               in Inr \<lparr>ode_t = map fst kept, ode_y = map snd kept\<rparr>)"

subsection \<open>\<open>fixed_step_solver_template\<close>\<close>

text \<open>
  The step rule \<open>take_step\<close> and the right-hand side \<open>rhs_func\<close> are callables of the caller;
  the template only passes \<open>rhs_func\<close> on. The inner loop takes \<open>n_steps\<close> steps of size \<open>h\<close>.
\<close>

fun take_steps ::
  "('g \<Rightarrow> real \<Rightarrow> 'y \<Rightarrow> real \<Rightarrow> 'y result) \<Rightarrow> 'g \<Rightarrow> nat \<Rightarrow> real \<Rightarrow> 'y \<Rightarrow> real \<Rightarrow> 'y result" where
  "take_steps take_step rhs_func 0 inner_t y h = Inr y"
| "take_steps take_step rhs_func (Suc n) inner_t y h =
     bindR (take_step rhs_func inner_t y h) (\<lambda>y'.
       take_steps take_step rhs_func n (inner_t + h) y' h)"

text \<open>The outer loop over \<open>zip(t_list, h_list, n_steps_list)\<close>, which appends to \<open>ys\<close>.\<close>

fun integrate_intervals ::
  "('g \<Rightarrow> real \<Rightarrow> 'y \<Rightarrow> real \<Rightarrow> 'y result) \<Rightarrow> 'g \<Rightarrow> 'y list \<Rightarrow> (real \<times> real \<times> nat) list
     \<Rightarrow> 'y list result" where
  "integrate_intervals take_step rhs_func ys [] = Inr ys"
| "integrate_intervals take_step rhs_func ys ((current_t, h, n_steps) # rest) =
     bindR (take_steps take_step rhs_func n_steps current_t (last ys) h) (\<lambda>y.
       integrate_intervals take_step rhs_func (ys @ [y]) rest)"

definition sequential_ys ::
  "('g \<Rightarrow> real \<Rightarrow> 'y \<Rightarrow> real \<Rightarrow> 'y result) \<Rightarrow> 'g \<Rightarrow> 'y
     \<Rightarrow> real list \<times> real list \<times> nat list \<Rightarrow> 'y list result" where
  "sequential_ys take_step rhs_func y0 grid =
     (case grid of (t_list, h_list, n_steps_list) \<Rightarrow>
        integrate_intervals take_step rhs_func [y0] (zip t_list (zip h_list n_steps_list)))"

definition fixed_step_solver_template ::
  "('g \<Rightarrow> real \<Rightarrow> 'y \<Rightarrow> real \<Rightarrow> 'y result) \<Rightarrow> 'g \<Rightarrow> real \<times> real \<Rightarrow> 'y \<Rightarrow> real
     \<Rightarrow> real list option \<Rightarrow> 'y OdeResult result" where
  "fixed_step_solver_template take_step rhs_func t_span y0 max_dt t_eval =
     bindR (get_fixed_step_sizes t_span t_eval max_dt) (\<lambda>grid.
     bindR (sequential_ys take_step rhs_func y0 grid) (\<lambda>ys.
       trim_t_results \<lparr>ode_t = fst grid, ode_y = ys\<rparr> t_eval))"

subsection \<open>\<open>fixed_step_solver_template_jax\<close>\<close>

text \<open>
  \<open>jax.lax.scan\<close> threads a carry through a list and collects the outputs; \<open>jax.lax.cond\<close>
  applies one of two functions. The maximum of an empty array raises \<open>ValueError\<close>.
\<close>

fun scan :: "('c \<Rightarrow> 'x \<Rightarrow> ('c \<times> 'o) result) \<Rightarrow> 'c \<Rightarrow> 'x list \<Rightarrow> ('c \<times> 'o list) result" where
  "scan f init [] = Inr (init, [])"
| "scan f init (x # xs) =
     bindR (f init x) (\<lambda>(carry, out).
     bindR (scan f carry xs) (\<lambda>(final, outs). Inr (final, out # outs)))"

definition cond :: "bool \<Rightarrow> ('a \<Rightarrow> 'b) \<Rightarrow> ('a \<Rightarrow> 'b) \<Rightarrow> 'a \<Rightarrow> 'b" where
  "cond pred true_fun false_fun operand = (if pred then true_fun operand else false_fun operand)"

definition np_max :: "nat list \<Rightarrow> nat result" where
  "np_max ns = (case ns of [] \<Rightarrow> Inl ValueError | n # rest \<Rightarrow> Inr (fold max rest n))"

definition scan_take_step ::
  "('g \<Rightarrow> real \<Rightarrow> 'y \<Rightarrow> real \<Rightarrow> 'y result) \<Rightarrow> 'g \<Rightarrow> real \<Rightarrow> nat \<Rightarrow> real \<times> 'y \<Rightarrow> nat
     \<Rightarrow> ((real \<times> 'y) \<times> unit) result" where
  "scan_take_step take_step rhs_func h n_steps carry step =
     (case carry of (t, y) \<Rightarrow>
        bindR (cond (step < n_steps) (\<lambda>y. take_step rhs_func t y h) (\<lambda>y. Inr y) y) (\<lambda>y.
          Inr ((t + h, y), ())))"

definition scan_interval_integrate ::
  "('g \<Rightarrow> real \<Rightarrow> 'y \<Rightarrow> real \<Rightarrow> 'y result) \<Rightarrow> 'g \<Rightarrow> nat \<Rightarrow> 'y \<Rightarrow> real \<times> real \<times> nat
     \<Rightarrow> ('y \<times> 'y) result" where
  "scan_interval_integrate take_step rhs_func max_steps carry x =
     (case x of (current_t, h, n_steps) \<Rightarrow>
        bindR (scan (scan_take_step take_step rhs_func h n_steps) (current_t, carry)
                 [0..<max_steps]) (\<lambda>r.
          let next_y = snd (fst r) in Inr (next_y, next_y)))"

definition jax_ys ::
  "('g \<Rightarrow> real \<Rightarrow> 'y \<Rightarrow> real \<Rightarrow> 'y result) \<Rightarrow> 'g \<Rightarrow> 'y
     \<Rightarrow> real list \<times> real list \<times> nat list \<Rightarrow> 'y list result" where
  "jax_ys take_step rhs_func y0 grid =
     (case grid of (t_list, h_list, n_steps_list) \<Rightarrow>
        bindR (np_max n_steps_list) (\<lambda>max_steps.
        bindR (scan (scan_interval_integrate take_step rhs_func max_steps) y0
                 (zip (butlast t_list) (zip h_list n_steps_list))) (\<lambda>r.
          Inr (y0 # snd r))))"

definition fixed_step_solver_template_jax ::
  "('g \<Rightarrow> real \<Rightarrow> 'y \<Rightarrow> real \<Rightarrow> 'y result) \<Rightarrow> 'g \<Rightarrow> real \<times> real \<Rightarrow> 'y \<Rightarrow> real
     \<Rightarrow> real list option \<Rightarrow> 'y OdeResult result" where
  "fixed_step_solver_template_jax take_step rhs_func t_span y0 max_dt t_eval =
     bindR (get_fixed_step_sizes t_span t_eval max_dt) (\<lambda>grid.
     bindR (jax_ys take_step rhs_func y0 grid) (\<lambda>ys.
       trim_t_results \<lparr>ode_t = fst grid, ode_y = ys\<rparr> t_eval))"

subsection \<open>\<open>fixed_step_lmde_solver_parallel_template_jax\<close>\<close>

text \<open>
  The loop that lists every stepping point, its step size, and the positions of the breakpoints
  among the stepping points.
\<close>

fun all_steps ::
  "(real \<times> real \<times> nat) list \<Rightarrow> real list \<times> real list \<times> int list
     \<Rightarrow> real list \<times> real list \<times> int list" where
  "all_steps [] acc = acc"
| "all_steps ((t, h, n_steps) # rest) (all_times, all_h, t_list_locations) =
     all_steps rest
       (all_times @ map (\<lambda>k. t + h * real k) [0..<n_steps],
        all_h @ replicate n_steps h,
        t_list_locations @ [last t_list_locations + int n_steps])"

text \<open>A list of results is a result: the first exception aborts.\<close>

fun sequence :: "'a result list \<Rightarrow> 'a list result" where
  "sequence [] = Inr []"
| "sequence (r # rs) = bindR r (\<lambda>x. bindR (sequence rs) (\<lambda>xs. Inr (x # xs)))"

text \<open>
  Indexing with one integer, where a negative index counts from the end, and with an array of
  integers.
\<close>

definition index1 :: "'a list \<Rightarrow> int \<Rightarrow> 'a result" where
  "index1 xs i =
     (if 0 \<le> i \<and> i < int (length xs) then Inr (xs ! nat i)
      else if i < 0 \<and> - int (length xs) \<le> i then Inr (xs ! nat (int (length xs) + i))
      else Inl IndexError)"

definition index_array :: "'a list \<Rightarrow> int list \<Rightarrow> 'a list result" where
  "index_array xs idx = sequence (map (index1 xs) idx)"

text \<open>
  \<open>jax.lax.associative_scan\<close>, by its contract: for an associative \<open>fn\<close> the output at position
  \<open>i\<close> combines the first \<open>i + 1\<close> elements in their order, \<open>fn\<close> being applied to what is
  combined so far and the next element.
\<close>

fun scan_from :: "('a \<Rightarrow> 'a \<Rightarrow> 'a result) \<Rightarrow> 'a \<Rightarrow> 'a list \<Rightarrow> 'a list result" where
  "scan_from fn acc [] = Inr []"
| "scan_from fn acc (x # xs) =
     bindR (fn acc x) (\<lambda>a. bindR (scan_from fn a xs) (\<lambda>rest. Inr (a # rest)))"

definition associative_scan :: "('a \<Rightarrow> 'a \<Rightarrow> 'a result) \<Rightarrow> 'a list \<Rightarrow> 'a list result" where
  "associative_scan fn elems =
     (case elems of
        [] \<Rightarrow> Inr []
      | x # xs \<Rightarrow> bindR (scan_from fn x xs) (\<lambda>rest. Inr (x # rest)))"

definition reverse_mul :: "ndarray \<Rightarrow> ndarray \<Rightarrow> ndarray result" where
  "reverse_mul A B = np_matmul B A"

text \<open>
  The second half of the template: the step propagators are multiplied together and the values
  at the breakpoints are extracted.
\<close>

definition parallel_compose :: "ndarray \<Rightarrow> ndarray list \<Rightarrow> int list \<Rightarrow> ndarray list result" where
  "parallel_compose y0 step_propagators t_list_locations =
     (if ndim y0 = 2 \<and> shape y0 ! 0 = shape y0 ! 1 then
        bindR (associative_scan reverse_mul (y0 # step_propagators)) (\<lambda>intermediate_props.
          index_array intermediate_props t_list_locations)
      else
        bindR (associative_scan reverse_mul step_propagators) (\<lambda>intermediate_props.
        bindR (index_array intermediate_props (map (\<lambda>l. l - 1) (tl t_list_locations)))
          (\<lambda>selected.
        bindR (sequence (map (\<lambda>P. np_matmul P y0) selected)) (\<lambda>intermediate_y.
          Inr (y0 # intermediate_y)))))"

text \<open>
  \<open>jax.vmap\<close> applies \<open>take_step\<close> to every stepping point. When the grid has no interval the
  loop has not run, \<open>all_times\<close> and \<open>all_h\<close> are still empty Python lists, and \<open>vmap\<close> raises
  \<open>ValueError\<close> since no argument contains an array. The warning about CPUs has no effect on
  the result and is left out.
\<close>

definition parallel_ys ::
  "('g \<Rightarrow> real \<Rightarrow> real \<Rightarrow> ndarray result) \<Rightarrow> 'g \<Rightarrow> ndarray
     \<Rightarrow> real list \<times> real list \<times> nat list \<Rightarrow> ndarray list result" where
  "parallel_ys take_step generator y0 grid =
     (case grid of (t_list, h_list, n_steps_list) \<Rightarrow>
        let intervals = zip t_list (zip h_list n_steps_list) in
        case all_steps intervals ([], [], [0]) of (all_times, all_h, t_list_locations) \<Rightarrow>
          bindR (if intervals = [] then Inl ValueError
                 else sequence (map2 (\<lambda>t h. take_step generator t h) all_times all_h))
            (\<lambda>step_propagators. parallel_compose y0 step_propagators t_list_locations))"

definition fixed_step_lmde_solver_parallel_template_jax ::
  "('g \<Rightarrow> real \<Rightarrow> real \<Rightarrow> ndarray result) \<Rightarrow> 'g \<Rightarrow> real \<times> real \<Rightarrow> ndarray \<Rightarrow> real
     \<Rightarrow> real list option \<Rightarrow> ndarray OdeResult result" where
  "fixed_step_lmde_solver_parallel_template_jax take_step generator t_span y0 max_dt t_eval =
     bindR (get_fixed_step_sizes t_span t_eval max_dt) (\<lambda>grid.
     bindR (parallel_ys take_step generator y0 grid) (\<lambda>ys.
       trim_t_results \<lparr>ode_t = fst grid, ode_y = ys\<rparr> t_eval))"

section \<open>The solvers\<close>

text \<open>
  The decorator \<open>requires_array_library\<close> is not among the sources; whether the library is
  installed is a parameter of the model, and without the library the decorated function raises
  before its body runs. The matrix exponentials \<open>scipy.linalg.expm\<close> and
  \<open>jax.scipy.linalg.expm\<close> are parameters as well.
\<close>

definition requires_array_library :: "bool \<Rightarrow> 'a result \<Rightarrow> 'a result" where
  "requires_array_library installed body = (if installed then body else Inl MissingLibraryError)"

definition RK4_solver ::
  "(real \<Rightarrow> ndarray \<Rightarrow> ndarray result) \<Rightarrow> real \<times> real \<Rightarrow> ndarray \<Rightarrow> real \<Rightarrow> real list option
     \<Rightarrow> ndarray OdeResult result" where
  "RK4_solver rhs t_span y0 max_dt t_eval =
     fixed_step_solver_template RK4_take_step rhs t_span y0 max_dt t_eval"

definition scipy_expm_solver ::
  "(ndarray \<Rightarrow> ndarray result) \<Rightarrow> generator \<Rightarrow> real \<times> real \<Rightarrow> ndarray \<Rightarrow> real
     \<Rightarrow> real list option \<Rightarrow> int \<Rightarrow> ndarray OdeResult result" where
  "scipy_expm_solver expm generator t_span y0 max_dt t_eval magnus_order =
     bindR (get_exponential_take_step magnus_order expm False) (\<lambda>take_step.
       fixed_step_solver_template (call4 take_step) generator t_span y0 max_dt t_eval)"

definition jax_expm_solver ::
  "bool \<Rightarrow> (ndarray \<Rightarrow> ndarray result) \<Rightarrow> generator \<Rightarrow> real \<times> real \<Rightarrow> ndarray \<Rightarrow> real
     \<Rightarrow> real list option \<Rightarrow> int \<Rightarrow> ndarray OdeResult result" where
  "jax_expm_solver jax_installed jexpm generator t_span y0 max_dt t_eval magnus_order =
     requires_array_library jax_installed
       (bindR (get_exponential_take_step magnus_order jexpm False) (\<lambda>take_step.
          fixed_step_solver_template_jax (call4 take_step) generator t_span y0 max_dt t_eval))"

definition jax_expm_parallel_solver ::
  "bool \<Rightarrow> (ndarray \<Rightarrow> ndarray result) \<Rightarrow> generator \<Rightarrow> real \<times> real \<Rightarrow> ndarray \<Rightarrow> real
     \<Rightarrow> real list option \<Rightarrow> int \<Rightarrow> ndarray OdeResult result" where
  "jax_expm_parallel_solver jax_installed jexpm generator t_span y0 max_dt t_eval magnus_order =
     requires_array_library jax_installed
       (bindR (get_exponential_take_step magnus_order jexpm True) (\<lambda>take_step.
          fixed_step_lmde_solver_parallel_template_jax (call3 take_step) generator t_span y0
            max_dt t_eval))"

definition jax_RK4_parallel_solver ::
  "bool \<Rightarrow> generator \<Rightarrow> real \<times> real \<Rightarrow> ndarray \<Rightarrow> real \<Rightarrow> real list option
     \<Rightarrow> ndarray OdeResult result" where
  "jax_RK4_parallel_solver jax_installed generator t_span y0 max_dt t_eval =
     requires_array_library jax_installed
       (bindR (shape_last y0) (\<lambda>dim.
          let ident = eye dim
          in fixed_step_lmde_solver_parallel_template_jax (jax_RK4_parallel_take_step ident)
               generator t_span y0 max_dt t_eval))"

section \<open>Auxiliary notions\<close>

text \<open>Notions that only the proofs use.\<close>

definition shaped :: "nat \<Rightarrow> nat \<Rightarrow> ndarray \<Rightarrow> bool" where
  "shaped r c a = (case a of Mat m \<Rightarrow> length m = r \<and> list_all (\<lambda>row. length row = c) m | _ \<Rightarrow> False)"

definition conforms :: "nat \<Rightarrow> ndarray \<Rightarrow> bool" where
  "conforms n a = (case a of Vec v \<Rightarrow> length v = n | Mat m \<Rightarrow> length m = n \<and> wf (Mat m) | Scalar z \<Rightarrow> False)"

definition mm :: "ndarray \<Rightarrow> ndarray \<Rightarrow> ndarray" where
  "mm a b = projr (np_matmul a b)"

definition apply_props :: "ndarray list \<Rightarrow> ndarray \<Rightarrow> ndarray" where
  "apply_props Ps y = foldl (\<lambda>y P. mm P y) y Ps"

definition interval_props :: "(real \<Rightarrow> real \<Rightarrow> ndarray) \<Rightarrow> real \<times> real \<times> nat \<Rightarrow> ndarray list" where
  "interval_props propagator x = (case x of (t, h, n) \<Rightarrow> map (\<lambda>k. propagator (t + h * real k) h) [0..<n])"

fun seq_values :: "(real \<Rightarrow> real \<Rightarrow> ndarray) \<Rightarrow> ndarray \<Rightarrow> (real \<times> real \<times> nat) list \<Rightarrow> ndarray list" where
  "seq_values propagator y [] = []"
| "seq_values propagator y (x # rest) =
     apply_props (interval_props propagator x) y # seq_values propagator (apply_props (interval_props propagator x) y) rest"

fun step_times :: "(real \<times> real \<times> nat) list \<Rightarrow> real list" where
  "step_times [] = []"
| "step_times ((t, h, n) # rest) = map (\<lambda>k. t + h * real k) [0..<n] @ step_times rest"

fun step_sizes :: "(real \<times> real \<times> nat) list \<Rightarrow> real list" where
  "step_sizes [] = []"
| "step_sizes ((t, h, n) # rest) = replicate n h @ step_sizes rest"

fun offsets :: "int \<Rightarrow> (real \<times> real \<times> nat) list \<Rightarrow> int list" where
  "offsets l [] = []"
| "offsets l ((t, h, n) # rest) = (l + int n) # offsets (l + int n) rest"

fun prefixes :: "ndarray \<Rightarrow> ndarray list \<Rightarrow> ndarray list" where
  "prefixes acc [] = []"
| "prefixes acc (P # Ps) = mm P acc # prefixes (mm P acc) Ps"

definition all_props :: "(real \<Rightarrow> real \<Rightarrow> ndarray) \<Rightarrow> (real \<times> real \<times> nat) list \<Rightarrow> ndarray list" where
  "all_props propagator intervals = concat (map (interval_props propagator) intervals)"

definition cumulative :: "ndarray list \<Rightarrow> nat \<Rightarrow> ndarray" where
  "cumulative Ps l = apply_props (take (l - 1) (tl Ps)) (hd Ps)"

text \<open>The doubles, exponent range apart: a significand of at most 53 bits and any exponent.\<close>

definition is_double :: "real \<Rightarrow> bool" where
  "is_double d = (\<exists>m e :: int. \<bar>m\<bar> < 2 ^ 53 \<and> d = of_int m * 2 powi e)"

text \<open>
  The product \<open>P\<^sub>k @ (\<dots> @ (P\<^sub>1 @ y))\<close> of a list \<open>[P\<^sub>1, \<dots>, P\<^sub>k]\<close> applied to \<open>y\<close>, the
  first exception of a product included.
\<close>

definition apply_chain :: "ndarray list \<Rightarrow> ndarray \<Rightarrow> ndarray result" where
  "apply_chain Ps y = foldl (\<lambda>r P. bindR r (np_matmul P)) (Inr y) Ps"

text \<open>
  The matrix exponential by its power series, entry by entry: the value that \<open>expm\<close> stands
  for in exact arithmetic. It is defined on square matrices; \<open>mat_power A k\<close> is the power
  \<open>A\<^sup>k\<close>.
\<close>

primrec mat_power :: "complex list list \<Rightarrow> nat \<Rightarrow> complex list list" where
  "mat_power A 0 = mk (length A) (length A) (\<lambda>i j. if i = j then 1 else 0)"
| "mat_power A (Suc k) =
     mk (length A) (length A) (\<lambda>i j. \<Sum>l<length A. A ! i ! l * mat_power A k ! l ! j)"

definition expm_series :: "ndarray \<Rightarrow> ndarray result" where
  "expm_series a =
     (case a of
        Mat A \<Rightarrow>
          if wf (Mat A) \<and> ncols A = length A
          then Inr (Mat (mk (length A) (length A) (\<lambda>i j. \<Sum>k. mat_power A k ! i ! j / fact k)))
          else Inl ValueError
      | Vec v \<Rightarrow> Inl ValueError
      | Scalar z \<Rightarrow> Inl ValueError)"

section \<open>Properties of the grid\<close>

lemma length_np_diff: "length (np_diff ts) = length ts - 1"
  by (induction ts rule: np_diff.induct) simp_all

lemma nth_np_diff: "Suc i < length ts \<Longrightarrow> np_diff ts ! i = ts ! Suc i - ts ! i"
proof (induction ts arbitrary: i rule: np_diff.induct)
  case (1 a b rest)
  show ?case
  proof (cases i)
    case 0
    then show ?thesis by simp
  next
    case (Suc j)
    with "1.prems" have "Suc j < length (b # rest)" by simp
    from "1.IH" [OF this] Suc show ?thesis by simp
  qed
qed simp_all

lemma map2_map_same: "map2 f xs (map g xs) = map (\<lambda>x. f x (g x)) xs"
  by (induction xs) simp_all

lemma correct_rounding_map:
  "correct_rounding max_dt ds (map (initial_n_steps max_dt) ds) = map (n_steps_of max_dt) ds"
  by (induction ds) (simp_all add: n_steps_of_def)

lemma get_fixed_step_sizes_Inr:
  assumes "get_fixed_step_sizes t_span t_eval max_dt = Inr (t_list, h_list, n_steps_list)"
  shows "merge_t_args t_span t_eval = Inr t_list"
    and "n_steps_list = map (n_steps_of max_dt) (np_diff t_list)"
    and "h_list = map (\<lambda>d. d / real (n_steps_of max_dt d)) (np_diff t_list)"
  using assms
  by (auto simp: get_fixed_step_sizes_def bindR_def Let_def correct_rounding_map map2_map_same
           split: sum.splits)

lemma n_steps_of_pos: "1 \<le> n_steps_of max_dt d"
  by (simp add: n_steps_of_def correct_n_steps_def)

lemma n_steps_of_bound:
  assumes "0 < max_dt"
  shows "\<bar>d / real (n_steps_of max_dt d)\<bar> \<le> max_dt * (1 + 5 / 2 ^ 52)"
proof -
  define k where "k = initial_n_steps max_dt d"
  have x: "\<bar>d / max_dt\<bar> = \<bar>d\<bar> / max_dt" using assms by simp
  have klt: "\<bar>d\<bar> / max_dt < real k + 1"
    unfolding k_def initial_n_steps_def x by linarith
  show ?thesis
  proof (cases "k = 0")
    case True
    then have "n_steps_of max_dt d = 1"
      by (simp add: n_steps_of_def correct_n_steps_def k_def)
    moreover from klt True assms have "\<bar>d\<bar> < max_dt" by (simp add: pos_divide_less_eq)
    ultimately have "\<bar>d / real (n_steps_of max_dt d)\<bar> \<le> max_dt" by simp
    also have "max_dt \<le> max_dt * (1 + 5 / 2 ^ 52)" using assms by simp
    finally show ?thesis .
  next
    case False
    show ?thesis
    proof (cases "\<bar>d / real k\<bar> / max_dt > 1 + 5 / 2 ^ 52")
      case True
      with False have n: "n_steps_of max_dt d = k + 1"
        by (simp add: n_steps_of_def correct_n_steps_def k_def)
      from klt assms have "\<bar>d\<bar> < max_dt * (real k + 1)"
        by (simp add: pos_divide_less_eq mult.commute)
      then have "\<bar>d\<bar> / (real k + 1) < max_dt"
        by (simp add: pos_divide_less_eq)
      moreover have "\<bar>d / real (k + 1)\<bar> = \<bar>d\<bar> / (real k + 1)" by simp
      ultimately have "\<bar>d / real (k + 1)\<bar> \<le> max_dt" by linarith
      also have "max_dt \<le> max_dt * (1 + 5 / 2 ^ 52)" using assms by simp
      finally show ?thesis unfolding n .
    next
      case nb: False
      with False have n: "n_steps_of max_dt d = k"
        by (simp add: n_steps_of_def correct_n_steps_def k_def)
      from nb have "\<bar>d / real k\<bar> / max_dt \<le> 1 + 5 / 2 ^ 52" by simp
      with assms have "\<bar>d / real k\<bar> \<le> (1 + 5 / 2 ^ 52) * max_dt"
        by (simp only: pos_divide_le_eq)
      then show ?thesis unfolding n by (simp add: mult.commute)
    qed
  qed
qed

lemma n_steps_of_exact: "real (n_steps_of max_dt d) * (d / real (n_steps_of max_dt d)) = d"
  using n_steps_of_pos [of max_dt d] by simp

lemma n_steps_of_sgn: "sgn (d / real (n_steps_of max_dt d)) = sgn d"
  using n_steps_of_pos [of max_dt d] by (simp add: sgn_divide)  

lemma spec_step_count_ceiling:
  assumes "0 < max_dt"
  shows "spec_step_count max_dt delta = max 1 (nat \<lceil>\<bar>delta\<bar> / max_dt\<rceil>)"
proof -
  define n where "n = max 1 (nat \<lceil>\<bar>delta\<bar> / max_dt\<rceil>)"
  have n1: "1 \<le> n" by (simp add: n_def)
  have "\<bar>delta\<bar> / max_dt \<le> real_of_int \<lceil>\<bar>delta\<bar> / max_dt\<rceil>" by linarith
  also have "\<dots> \<le> real n" unfolding n_def by linarith
  finally have "\<bar>delta\<bar> \<le> real n * max_dt" using assms by (simp add: pos_divide_le_eq)
  then have "\<bar>delta\<bar> / real n \<le> max_dt" using n1 by (simp add: pos_divide_le_eq mult.commute)
  also have "max_dt \<le> max_dt * (1 + 1 / 10 ^ 15)" using assms by simp
  finally show ?thesis unfolding spec_step_count_def n_def [symmetric] by (simp add: Let_def)
qed

lemma n_steps_of_rule:
  assumes "0 < max_dt"
  shows "n_steps_of max_dt delta =
           (let x = \<bar>delta\<bar> / max_dt; k = nat \<lfloor>x\<rfloor>
            in if 1 \<le> k \<and> real k < x \<and> x \<le> real k * (1 + 5 / 2 ^ 52) then k
               else spec_step_count max_dt delta)"
proof -
  define e :: real where "e = 1 + 5 / 2 ^ 52"
  define x where "x = \<bar>delta\<bar> / max_dt"
  define k where "k = nat \<lfloor>x\<rfloor>"
  have e1: "1 \<le> e" by (simp add: e_def)
  have x0: "0 \<le> x" using assms by (simp add: x_def)
  have xabs: "\<bar>delta / max_dt\<bar> = x" using assms by (simp add: x_def)
  have ki: "initial_n_steps max_dt delta = k" unfolding initial_n_steps_def xabs k_def ..
  have kx: "real k \<le> x" "x < real k + 1" using x0 unfolding k_def by linarith+
  have spec: "spec_step_count max_dt delta = max 1 (nat \<lceil>x\<rceil>)"
    using spec_step_count_ceiling [OF assms] by (simp add: x_def)
  have code: "n_steps_of max_dt delta =
                (if k = 0 then 1 else if \<bar>delta / real k\<bar> / max_dt > e then k + 1 else k)"
    unfolding n_steps_of_def ki correct_n_steps_def e_def ..
  have goal: "?thesis = (n_steps_of max_dt delta =
                (if 1 \<le> k \<and> real k < x \<and> x \<le> real k * e then k else max 1 (nat \<lceil>x\<rceil>)))"
    unfolding x_def [symmetric] Let_def k_def [symmetric] spec e_def ..
  have main: "n_steps_of max_dt delta =
                (if 1 \<le> k \<and> real k < x \<and> x \<le> real k * e then k else max 1 (nat \<lceil>x\<rceil>))"
  proof (cases "k = 0")
    case True
    with kx have "nat \<lceil>x\<rceil> \<le> 1" by linarith
    then have "max 1 (nat \<lceil>x\<rceil>) = 1" by simp
    with True show ?thesis unfolding code by simp
  next
    case False
    then have k1: "1 \<le> k" by simp
    have ratio: "\<bar>delta / real k\<bar> / max_dt = x / real k"
      using assms by (simp add: x_def)
    have gt: "(x / real k > e) = (\<not> x \<le> real k * e)"
      using k1 by (simp add: pos_less_divide_eq mult.commute not_le)
    show ?thesis
    proof (cases "x \<le> real k * e")
      case True
      then have n: "n_steps_of max_dt delta = k"
        unfolding code ratio gt using False by simp
      show ?thesis
      proof (cases "real k < x")
        case True
        with \<open>x \<le> real k * e\<close> k1 n show ?thesis by simp
      next
        case False
        with kx have "x = real k" by simp
        then have "nat \<lceil>x\<rceil> = k" by simp
        with k1 have "max 1 (nat \<lceil>x\<rceil>) = k" by simp
        with False n show ?thesis by simp
      qed
    next
      case nle: False
      then have n: "n_steps_of max_dt delta = k + 1"
        unfolding code ratio gt using False by simp
      have "real k \<le> real k * e" using e1 by (simp add: mult_le_cancel_left1)
      with nle have "real k < x" by linarith
      with kx have "\<lceil>x\<rceil> = int k + 1" by linarith
      then have "max 1 (nat \<lceil>x\<rceil>) = k + 1" by simp
      with nle n show ?thesis by simp
    qed
  qed
  then show ?thesis unfolding goal .
qed

lemma merge_t_args_valid:
  assumes "valid_t_eval t_span t_eval"
  shows "\<exists>t_list. merge_t_args t_span t_eval = Inr t_list \<and> hd t_list = fst t_span \<and>
           last t_list = snd t_span"
  using assms
  by (cases t_eval) (auto simp: merge_t_args_def valid_t_eval_def hd_append)

text \<open>
  C2 (grid correctness). For a positive \<open>max_dt\<close> and a \<open>t_eval\<close> that \<open>merge_t_args\<close>
  accepts, \<open>get_fixed_step_sizes\<close> returns a grid from \<open>t_span[0]\<close> to \<open>t_span[1]\<close> with one
  step size and one step count for each pair of consecutive breakpoints, and for every such
  pair \<open>i\<close>: the count is at least 1, the difference of the breakpoints is exactly
  \<open>n\<^sub>i * h\<^sub>i\<close>, the size of the step is at most \<open>max_dt * (1 + 1e-12)\<close>, and \<open>h\<^sub>i\<close> has the
  sign of the difference, whichever the direction of integration.
\<close>

theorem grid_correctness:
  assumes "0 < max_dt" and "valid_t_eval t_span t_eval"
  shows "\<exists>t_list h_list n_steps_list.
           get_fixed_step_sizes t_span t_eval max_dt = Inr (t_list, h_list, n_steps_list) \<and>
           hd t_list = fst t_span \<and> last t_list = snd t_span \<and>
           length h_list = length t_list - 1 \<and> length n_steps_list = length t_list - 1 \<and>
           (\<forall>i. Suc i < length t_list \<longrightarrow>
              1 \<le> n_steps_list ! i \<and>
              t_list ! Suc i - t_list ! i = real (n_steps_list ! i) * h_list ! i \<and>
              \<bar>h_list ! i\<bar> \<le> max_dt * (1 + 1 / 10 ^ 12) \<and>
              sgn (h_list ! i) = sgn (t_list ! Suc i - t_list ! i))"
proof -
  from merge_t_args_valid [OF assms(2)] obtain t_list
    where m: "merge_t_args t_span t_eval = Inr t_list"
      and ends: "hd t_list = fst t_span" "last t_list = snd t_span"
    by blast
  define n_steps_list where "n_steps_list = map (n_steps_of max_dt) (np_diff t_list)"
  define h_list where "h_list = map (\<lambda>d. d / real (n_steps_of max_dt d)) (np_diff t_list)"
  have g: "get_fixed_step_sizes t_span t_eval max_dt = Inr (t_list, h_list, n_steps_list)"
    by (simp add: get_fixed_step_sizes_def m bindR_def Let_def correct_rounding_map
          map2_map_same n_steps_list_def h_list_def)
  have len: "length h_list = length t_list - 1" "length n_steps_list = length t_list - 1"
    by (simp_all add: h_list_def n_steps_list_def length_np_diff)
  have step: "1 \<le> n_steps_list ! i \<and>
              t_list ! Suc i - t_list ! i = real (n_steps_list ! i) * h_list ! i \<and>
              \<bar>h_list ! i\<bar> \<le> max_dt * (1 + 1 / 10 ^ 12) \<and>
              sgn (h_list ! i) = sgn (t_list ! Suc i - t_list ! i)"
    if i: "Suc i < length t_list" for i
  proof -
    define d where "d = t_list ! Suc i - t_list ! i"
    from i have il: "i < length (np_diff t_list)" by (simp add: length_np_diff)
    have di: "np_diff t_list ! i = d" using nth_np_diff [OF i] by (simp add: d_def)
    have n: "n_steps_list ! i = n_steps_of max_dt d"
      using il by (simp add: n_steps_list_def di)
    have h: "h_list ! i = d / real (n_steps_of max_dt d)"
      using il by (simp add: h_list_def di)
    have "\<bar>d / real (n_steps_of max_dt d)\<bar> \<le> max_dt * (1 + 5 / 2 ^ 52)"
      by (rule n_steps_of_bound [OF assms(1)])
    also have "\<dots> \<le> max_dt * (1 + 1 / 10 ^ 12)"
      using assms(1) by (intro mult_left_mono) simp_all
    finally have b: "\<bar>d / real (n_steps_of max_dt d)\<bar> \<le> max_dt * (1 + 1 / 10 ^ 12)" .
    show ?thesis
      unfolding d_def [symmetric] n h
      using n_steps_of_pos [of max_dt d] n_steps_of_exact [of max_dt d]
        n_steps_of_sgn [of d max_dt] b
      by simp
  qed
  from g ends len step show ?thesis by blast
qed

theorem grid_correctness_witness:
  "(0::real) < 3 / 10 \<and> valid_t_eval (0, 1) (Some [1 / 4, 1 / 2, 3 / 4]) \<and>
   get_fixed_step_sizes (0, 1) (Some [1 / 4, 1 / 2, 3 / 4]) (3 / 10) =
     Inr ([0, 1 / 4, 1 / 2, 3 / 4, 1], [1 / 4, 1 / 4, 1 / 4, 1 / 4], [1, 1, 1, 1])"
proof -
  have v: "valid_t_eval (0, 1) (Some [1 / 4, 1 / 2, 3 / 4])"
    by (simp add: valid_t_eval_def in_span_def)
  have p: "(0::real) < 3 / 10" by simp
  from grid_correctness [OF p v] obtain t_list h_list n_steps_list
    where g: "get_fixed_step_sizes (0, 1) (Some [1 / 4, 1 / 2, 3 / 4]) (3 / 10) =
                Inr (t_list, h_list, n_steps_list)"
    by blast
  have "get_fixed_step_sizes (0, 1) (Some [1 / 4, 1 / 2, 3 / 4]) (3 / 10) =
          Inr ([0, 1 / 4, 1 / 2, 3 / 4, 1], [1 / 4, 1 / 4, 1 / 4, 1 / 4], [1, 1, 1, 1])"
    by (simp add: get_fixed_step_sizes_def merge_t_args_def bindR_def in_span_def
          initial_n_steps_def correct_n_steps_def)
  with v p show ?thesis by simp
qed

text \<open>
  The rounding \<open>fl\<close> returns a double nearest to its argument (\<open>fl_nearest\<close>), with a relative
  error of at most \<open>2\<^sup>-\<^sup>5\<^sup>3\<close> (\<open>fl_error\<close>), and leaves a double as it is (\<open>fl_exact\<close>).
\<close>

lemma round_even_nearest: "\<bar>of_int (round_even y) - y\<bar> \<le> \<bar>of_int i - y\<bar>"
proof -
  define f where "f = \<lfloor>y\<rfloor>"
  have f: "of_int f \<le> y" "y < of_int f + 1" unfolding f_def by linarith+
  have r: "round_even y = f \<or> round_even y = f + 1"
    by (auto simp: round_even_def Let_def f_def)
  consider "i \<le> f" | "f + 1 \<le> i" by linarith
  then show ?thesis
  proof cases
    case 1
    then have i: "real_of_int i \<le> of_int f" by simp
    show ?thesis
    proof (cases "y - of_int f \<le> 1 / 2")
      case True
      then have "round_even y = f \<or> (round_even y = f + 1 \<and> y - of_int f = 1 / 2)"
        by (auto simp: round_even_def Let_def f_def [symmetric])
      with f i show ?thesis by auto
    next
      case False
      then have "round_even y = f + 1"
        by (auto simp: round_even_def Let_def f_def [symmetric])
      with f i False show ?thesis by simp
    qed
  next
    case 2
    then have i: "of_int f + 1 \<le> real_of_int i" by linarith
    show ?thesis
    proof (cases "1 / 2 \<le> y - of_int f")
      case True
      then have "round_even y = f + 1 \<or> (round_even y = f \<and> y - of_int f = 1 / 2)"
        by (auto simp: round_even_def Let_def f_def [symmetric])
      with f i show ?thesis by auto
    next
      case False
      then have "round_even y = f"
        by (auto simp: round_even_def Let_def f_def [symmetric])
      with f i False show ?thesis by simp
    qed
  qed
qed


lemma expo_bounds:
  assumes "0 < x"
  shows "2 powi \<lfloor>log 2 x\<rfloor> \<le> x" and "x < 2 powi (\<lfloor>log 2 x\<rfloor> + 1)"
proof -
  have "2 powr real_of_int \<lfloor>log 2 x\<rfloor> \<le> 2 powr log 2 x"
    by (intro powr_mono) simp_all
  also have "\<dots> = x" using assms by simp
  finally show "2 powi \<lfloor>log 2 x\<rfloor> \<le> x" by (simp add: powr_real_of_int')
  have "x = 2 powr log 2 x" using assms by simp
  also have "\<dots> < 2 powr real_of_int (\<lfloor>log 2 x\<rfloor> + 1)"
    by (intro powr_less_mono) simp_all
  finally show "x < 2 powi (\<lfloor>log 2 x\<rfloor> + 1)" by (simp only: powr_real_of_int' [of 2, simplified])
qed

lemma is_double_multiple:
  assumes "is_double d" and "2 powi E \<le> \<bar>d\<bar>"
  shows "\<exists>j :: int. d = of_int j * 2 powi (E - 52)"
proof -
  from assms(1) obtain m e :: int where m: "\<bar>m\<bar> < 2 ^ 53" and d: "d = of_int m * 2 powi e"
    unfolding is_double_def by blast
  have "\<bar>d\<bar> = \<bar>real_of_int m\<bar> * 2 powi e" unfolding d by (simp add: abs_mult)
  also have "\<dots> < 2 ^ 53 * 2 powi e"
  proof (rule mult_strict_right_mono)
    from m have "real_of_int \<bar>m\<bar> < real_of_int (2 ^ 53)" by (simp only: of_int_less_iff)
    then show "\<bar>real_of_int m\<bar> < 2 ^ 53" by simp
    show "(0::real) < 2 powi e" by (simp add: zero_less_power_int)
  qed
  also have "\<dots> = 2 powi (53 + e)" by (simp add: power_int_add)
  finally have "(2::real) powi E < 2 powi (53 + e)" using assms(2) by linarith
  then have "E < 53 + e" using power_int_increasing [of "53 + e" E "2::real"] by (cases "E < 53 + e") auto
  then have "0 \<le> e - (E - 52)" by simp
  define c where "c = nat (e - (E - 52))"
  have c: "e = (E - 52) + int c" using \<open>0 \<le> e - (E - 52)\<close> by (simp add: c_def)
  have "d = of_int (m * 2 ^ c) * 2 powi (E - 52)"
    unfolding d c by (simp add: power_int_add power_int_of_nat)
  then show ?thesis by blast
qed

lemma fl_pos_scaled:
  assumes "0 < x"
  defines "g \<equiv> 2 powi (\<lfloor>log 2 x\<rfloor> - 52)"
  shows "0 < g" and "fl_pos x = of_int (round_even (x / g)) * g"
    and "2 powi \<lfloor>log 2 x\<rfloor> = 2 ^ 52 * g"
proof -
  show "0 < g" unfolding g_def by (simp add: zero_less_power_int)
  show "fl_pos x = of_int (round_even (x / g)) * g" by (simp add: fl_pos_def g_def Let_def)
  show "2 powi \<lfloor>log 2 x\<rfloor> = 2 ^ 52 * g"
    unfolding g_def by (simp add: power_int_diff)
qed

lemma fl_pos_nearest:
  assumes x: "0 < x" and d: "is_double d"
  shows "\<bar>fl_pos x - x\<bar> \<le> \<bar>d - x\<bar>"
proof -
  define e where "e = \<lfloor>log 2 x\<rfloor>"
  define g :: real where "g = 2 powi (e - 52)"
  define y where "y = x / g"
  have g: "0 < g" and fp: "fl_pos x = of_int (round_even y) * g" and eg: "2 powi e = 2 ^ 52 * g"
    using fl_pos_scaled [OF x] unfolding g_def e_def y_def by simp_all
  have xy: "x = y * g" using g by (simp add: y_def)
  have scaled: "\<bar>fl_pos x - x\<bar> \<le> \<bar>of_int i * g - x\<bar>" for i :: int
  proof -
    have "\<bar>fl_pos x - x\<bar> = \<bar>of_int (round_even y) - y\<bar> * g"
      unfolding fp using g by (simp add: xy abs_mult left_diff_distrib [symmetric])
    also have "\<dots> \<le> \<bar>of_int i - y\<bar> * g"
      using round_even_nearest [of y i] g by (simp add: mult_right_mono)
    also have "\<dots> = \<bar>of_int i * g - x\<bar>"
      using g by (simp add: xy abs_mult left_diff_distrib [symmetric])
    finally show ?thesis .
  qed
  show ?thesis
  proof (cases "2 powi e \<le> \<bar>d\<bar>")
    case True
    from is_double_multiple [OF d True] obtain j :: int where "d = of_int j * g"
      unfolding g_def by blast
    with scaled [of j] show ?thesis by simp
  next
    case False
    have "2 powi e \<le> x" using expo_bounds(1) [OF x] by (simp add: e_def)
    with False have dx: "d < 2 powi e" "2 powi e \<le> x" by linarith+
    have "\<bar>fl_pos x - x\<bar> \<le> \<bar>of_int (2 ^ 52) * g - x\<bar>" by (rule scaled)
    also have "of_int (2 ^ 52) * g = 2 powi e" by (simp add: eg)
    also have "\<bar>2 powi e - x\<bar> \<le> \<bar>d - x\<bar>" using dx by linarith
    finally show ?thesis .
  qed
qed


lemma is_double_uminus: "is_double d \<Longrightarrow> is_double (- d)"
proof -
  assume "is_double d"
  then obtain m e :: int where "\<bar>m\<bar> < 2 ^ 53" "d = of_int m * 2 powi e"
    unfolding is_double_def by blast
  then have "\<bar>- m\<bar> < 2 ^ 53" "- d = of_int (- m) * 2 powi e" by simp_all
  then show ?thesis unfolding is_double_def by blast
qed

lemma fl_nearest:
  assumes "is_double d"
  shows "\<bar>fl x - x\<bar> \<le> \<bar>d - x\<bar>"
proof -
  consider "x = 0" | "0 < x" | "x < 0" by linarith
  then show ?thesis
  proof cases
    case 1
    then show ?thesis by (simp add: fl_def)
  next
    case 2
    with fl_pos_nearest [OF 2 assms] show ?thesis by (simp add: fl_def)
  next
    case 3
    then have p: "0 < - x" by simp
    from fl_pos_nearest [OF p is_double_uminus [OF assms]] 3
    show ?thesis by (simp add: fl_def) 
  qed
qed


lemma fl_exact: "is_double x \<Longrightarrow> fl x = x"
  using fl_nearest [of x x] by simp



lemma is_double_nat:
  assumes "real k < 2 ^ 53"
  shows "is_double (real k)"
proof -
  from assms have "real_of_int (int k) < real_of_int (2 ^ 53)" by simp
  then have "int k < 2 ^ 53" by (simp only: of_int_less_iff)
  then have "\<bar>int k\<bar> < 2 ^ 53" by simp
  moreover have "real k = of_int (int k) * 2 powi 0" by simp
  ultimately show ?thesis unfolding is_double_def by blast
qed

lemma is_double_dyadic: "\<bar>m\<bar> < 2 ^ 53 \<Longrightarrow> is_double (of_int m / 2 ^ n)"
proof -
  assume "\<bar>m\<bar> < 2 ^ 53"
  moreover have "real_of_int m / 2 ^ n = of_int m * 2 powi (- int n)"
    by (simp add: power_int_minus field_simps)
  ultimately show ?thesis unfolding is_double_def by blast
qed












lemma floor_log2_eq:
  assumes "2 powi e \<le> x" and "x < 2 powi (e + 1)"
  shows "\<lfloor>log 2 x\<rfloor> = e"
proof -
  have x: "0 < x" using assms(1) zero_less_power_int [of "2::real" e] by linarith
  have "real_of_int e \<le> log 2 x"
    using assms(1) x by (simp add: le_log_iff powr_real_of_int')
  moreover have "log 2 x < real_of_int (e + 1)"
    using assms(2) x by (simp only: log_less_iff [of 2, simplified] powr_real_of_int' [of 2, simplified])
  ultimately show ?thesis by linarith
qed

lemma fl_compute:
  assumes "2 powi e \<le> x" and "x < 2 powi (e + 1)"
  shows "fl x = of_int (round_even (x / 2 powi (e - 52))) * 2 powi (e - 52)"
proof -
  have x: "0 < x" using assms(1) zero_less_power_int [of "2::real" e] by linarith
  then show ?thesis
    by (simp add: fl_def fl_pos_def floor_log2_eq [OF assms] Let_def)
qed

lemma fl_one: "fl 1 = 1"
  using fl_exact [OF is_double_nat [of 1]] by simp







lemma fl_gap_quotient: "fl ((3 + 1 / 2 ^ 48) / 3) = 1 + 5 / 2 ^ 52"
proof -
  have "fl ((3 + 1 / 2 ^ 48) / 3) =
          of_int (round_even ((3 + 1 / 2 ^ 48) / 3 / 2 powi (0 - 52))) * 2 powi (0 - 52)"
    by (rule fl_compute) simp_all
  also have "\<dots> = 1 + 5 / 2 ^ 52"
    by (simp add: round_even_def Let_def)
  finally show ?thesis .
qed

lemma fl_gap_delta: "fl (3 + 1 / 2 ^ 48) = 3 + 1 / 2 ^ 48"
proof -
  have "\<bar>3 * 2 ^ 48 + 1 :: int\<bar> < 2 ^ 53" by simp
  from fl_exact [OF is_double_dyadic [OF this, of 48]] show ?thesis
    by (simp add: add_divide_distrib)
qed

text \<open>
  Between the two bounds the rounding decides. For the breakpoints \<open>0\<close> and \<open>3 + 2\<^sup>-\<^sup>4\<^sup>8\<close>
  with \<open>max_dt = 3\<close> the quotient exceeds 1 by \<open>16 / 3\<close> units of \<open>2\<^sup>-\<^sup>5\<^sup>2\<close>. It is rounded to
  \<open>1 + 5 / 2 ^ 52\<close>, which is not above the bound, so the code takes one step; in exact
  arithmetic the quotient is above the bound and the count is 2.
\<close>

lemma double_grid_gap:
  "get_fixed_step_sizes_double (0, 3 + 1 / 2 ^ 48) None 3 =
     Inr ([0, 3 + 1 / 2 ^ 48], [3 + 1 / 2 ^ 48], [1]) \<and>
   get_fixed_step_sizes (0, 3 + 1 / 2 ^ 48) None 3 =
     Inr ([0, 3 + 1 / 2 ^ 48], [(3 + 1 / 2 ^ 48) / 2], [2])"
proof -
  have z: "3 + 1 / 2 ^ 48 - 0 = (3 + 1 / 2 ^ 48 :: real)" by simp
  have d: "fl (3 + 1 / 2 ^ 48 - 0) = 3 + 1 / 2 ^ 48"
    unfolding z by (rule fl_gap_delta)
  have i: "initial_n_steps_double 3 (3 + 1 / 2 ^ 48) = 1"
    unfolding initial_n_steps_double_def fl_gap_quotient by simp
  have f1: "fl (real 1) = 1" by (simp add: fl_one)
  have q: "(3 + 1 / 2 ^ 48) / 1 = (3 + 1 / 2 ^ 48 :: real)" by simp
  have a: "\<bar>3 + 1 / 2 ^ 48\<bar> / 3 = ((3 + 1 / 2 ^ 48) / 3 :: real)" by simp
  have "fl (\<bar>fl ((3 + 1 / 2 ^ 48) / fl (real 1))\<bar> / 3) = 1 + 5 / 2 ^ 52"
    unfolding f1 q fl_gap_delta a by (rule fl_gap_quotient)
  then have c: "correct_n_steps_double 3 (3 + 1 / 2 ^ 48) 1 = 1"
    unfolding correct_n_steps_double_def by simp
  have h: "fl ((3 + 1 / 2 ^ 48) / fl (real 1)) = 3 + 1 / 2 ^ 48"
    unfolding f1 q by (rule fl_gap_delta)
  have "get_fixed_step_sizes_double (0, 3 + 1 / 2 ^ 48) None 3 =
          Inr ([0, 3 + 1 / 2 ^ 48], [3 + 1 / 2 ^ 48], [1])"
    unfolding get_fixed_step_sizes_double_def merge_t_args_def
    by (simp only: option.case fst_conv snd_conv bindR_def sum.case Let_def np_diff.simps list.map d i
          correct_rounding_double.simps c zip_Cons_Cons zip_Nil prod.case h)
  moreover have "get_fixed_step_sizes (0, 3 + 1 / 2 ^ 48) None 3 =
     Inr ([0, 3 + 1 / 2 ^ 48], [(3 + 1 / 2 ^ 48) / 2], [2])"
    by (simp add: get_fixed_step_sizes_def merge_t_args_def bindR_def
          initial_n_steps_def correct_n_steps_def Let_def)
  ultimately show ?thesis by (simp only: simp_thms)
qed




lemma length_mk [simp]: "length (mk r c f) = r"
  by (simp add: mk_def)

lemma nth_mk [simp]: "i < r \<Longrightarrow> mk r c f ! i = map (f i) [0..<c]"
  by (simp add: mk_def)

lemma ncols_mk: "ncols (mk r c f) = (if r = 0 then 0 else c)"
  by (cases r) (simp_all add: mk_def ncols_def upt_conv_Cons del: upt_Suc)

lemma mk_cong: "(\<And>i j. i < r \<Longrightarrow> j < c \<Longrightarrow> f i j = g i j) \<Longrightarrow> mk r c f = mk r c g"
  by (simp add: mk_def)

lemma shaped_mk [simp]: "shaped r c (Mat (mk r c f))"
  by (simp add: shaped_def mk_def list_all_iff)

lemma shaped_MatD:
  assumes "shaped r c a"
  shows "\<exists>m. a = Mat m \<and> length m = r \<and> (\<forall>i<r. length (m ! i) = c)"
  using assms by (cases a) (auto simp: shaped_def list_all_length)

lemma shaped_ncols: "shaped r c (Mat m) \<Longrightarrow> 0 < r \<Longrightarrow> ncols m = c"
  by (cases m) (auto simp: shaped_def ncols_def)

lemma shaped_eq_mk:
  assumes "shaped r c (Mat m)"
  shows "m = mk r c (\<lambda>i j. m ! i ! j)"
proof (rule nth_equalityI)
  from assms show "length m = length (mk r c (\<lambda>i j. m ! i ! j))" by (simp add: shaped_def)
next
  fix i assume "i < length m"
  with assms have i: "i < r" and l: "length (m ! i) = c"
    by (auto simp: shaped_def list_all_length)
  show "m ! i = mk r c (\<lambda>i j. m ! i ! j) ! i"
    using i l by (simp add: list_eq_iff_nth_eq)
qed

lemma conforms_cases:
  assumes "conforms n y"
  obtains (vec) v where "y = Vec v" "length v = n"
        | (mat) m k where "y = Mat m" "shaped n k y"
proof (cases y)
  case (Scalar z)
  with assms show ?thesis by (simp add: conforms_def)
next
  case (Vec v)
  with assms that(1) show ?thesis by (simp add: conforms_def)
next
  case (Mat m)
  with assms have "shaped n (ncols m) y" by (simp add: conforms_def shaped_def)
  with Mat that(2) show ?thesis by blast
qed

lemma shaped_conforms: "shaped n k y \<Longrightarrow> conforms n y"
  by (cases y; cases "rows2d y") (auto simp: shaped_def conforms_def ncols_def list_all_iff)

lemma matmul_mat:
  assumes "shaped n n (Mat A)" and "shaped n k (Mat Y)"
  shows "np_matmul (Mat A) (Mat Y) = Inr (Mat (mk n k (\<lambda>i j. \<Sum>l<n. A ! i ! l * Y ! l ! j)))"
proof (cases "n = 0")
  case True
  with assms show ?thesis by (simp add: shaped_def ncols_def mk_def)
next
  case False
  with assms have "ncols A = n" "ncols Y = k" "length A = n" "length Y = n"
    by (auto simp: shaped_ncols shaped_def)
  then show ?thesis by simp
qed

lemma matmul_vec:
  assumes "shaped n n (Mat A)" and "length v = n"
  shows "np_matmul (Mat A) (Vec v) = Inr (Vec (map (\<lambda>i. \<Sum>l<n. A ! i ! l * v ! l) [0..<n]))"
proof (cases "n = 0")
  case True
  with assms show ?thesis by (simp add: shaped_def ncols_def)
next
  case False
  with assms have "ncols A = n" "length A = n"
    by (auto simp: shaped_ncols shaped_def)
  with assms show ?thesis by simp
qed

lemma matmul_shaped:
  assumes "shaped n n a" and "shaped n k y"
  shows "np_matmul a y = Inr (mm a y) \<and> shaped n k (mm a y)"
proof -
  from shaped_MatD [OF assms(1)] obtain A where a: "a = Mat A" by blast
  from shaped_MatD [OF assms(2)] obtain Y where y: "y = Mat Y" by blast
  from matmul_mat [of n A k Y] assms show ?thesis
    unfolding a y mm_def by simp
qed

lemma matmul_conforms:
  assumes "shaped n n a" and "conforms n y"
  shows "np_matmul a y = Inr (mm a y) \<and> conforms n (mm a y)"
  using assms(2)
proof (cases rule: conforms_cases)
  case (vec v)
  from shaped_MatD [OF assms(1)] obtain A where a: "a = Mat A" by blast
  from matmul_vec [of n A v] assms(1) vec show ?thesis
    unfolding a mm_def by (simp add: conforms_def)
next
  case (mat m k)
  with matmul_shaped [OF assms(1) mat(2)] show ?thesis
    by (auto intro: shaped_conforms)
qed

lemma mm_assoc:
  assumes a: "shaped n n a" and b: "shaped n n b" and y: "conforms n y"
  shows "mm (mm a b) y = mm a (mm b y)"
proof -
  from shaped_MatD [OF a] obtain A where A: "a = Mat A" "length A = n" by blast
  from shaped_MatD [OF b] obtain B where B: "b = Mat B" "length B = n" by blast
  have ab: "mm a b = Mat (mk n n (\<lambda>i j. \<Sum>l<n. A ! i ! l * B ! l ! j))"
    using matmul_mat [of n A n B] a b unfolding A B mm_def by simp
  from y show ?thesis
  proof (cases rule: conforms_cases)
    case (vec v)
    have bv: "mm b y = Vec (map (\<lambda>i. \<Sum>l<n. B ! i ! l * v ! l) [0..<n])"
      using matmul_vec [of n B v] b vec unfolding B mm_def by simp
    have "mm (mm a b) y = Vec (map (\<lambda>i. \<Sum>l<n. mk n n (\<lambda>i j. \<Sum>l<n. A ! i ! l * B ! l ! j) ! i ! l * v ! l) [0..<n])"
      unfolding ab vec using matmul_vec [of n "mk n n (\<lambda>i j. \<Sum>l<n. A ! i ! l * B ! l ! j)" v] vec
      by (simp add: mm_def)
    also have "\<dots> = Vec (map (\<lambda>i. \<Sum>l<n. A ! i ! l * (map (\<lambda>i. \<Sum>l<n. B ! i ! l * v ! l) [0..<n]) ! l) [0..<n])"
    proof -
      have "(\<Sum>l<n. mk n n (\<lambda>i j. \<Sum>l<n. A ! i ! l * B ! l ! j) ! i ! l * v ! l) =
            (\<Sum>l<n. A ! i ! l * (map (\<lambda>i. \<Sum>l<n. B ! i ! l * v ! l) [0..<n]) ! l)" if "i < n" for i
      proof -
        have "(\<Sum>l<n. mk n n (\<lambda>i j. \<Sum>l<n. A ! i ! l * B ! l ! j) ! i ! l * v ! l) =
              (\<Sum>l<n. (\<Sum>m<n. A ! i ! m * B ! m ! l) * v ! l)"
          using that by (intro sum.cong) simp_all
        also have "\<dots> = (\<Sum>l<n. \<Sum>m<n. A ! i ! m * (B ! m ! l * v ! l))"
          by (simp add: sum_distrib_right mult.assoc)
        also have "\<dots> = (\<Sum>m<n. \<Sum>l<n. A ! i ! m * (B ! m ! l * v ! l))"
          by (rule sum.swap)
        also have "\<dots> = (\<Sum>m<n. A ! i ! m * (\<Sum>l<n. B ! m ! l * v ! l))"
          by (simp add: sum_distrib_left)
        also have "\<dots> = (\<Sum>l<n. A ! i ! l * (map (\<lambda>i. \<Sum>l<n. B ! i ! l * v ! l) [0..<n]) ! l)"
          by (intro sum.cong) simp_all
        finally show ?thesis .
      qed
      then show ?thesis by simp
    qed
    also have "\<dots> = mm a (mm b y)"
      unfolding bv A using matmul_vec [of n A "map (\<lambda>i. \<Sum>l<n. B ! i ! l * v ! l) [0..<n]"] a
      by (simp add: mm_def A)
    finally show ?thesis .
  next
    case (mat Y k)
    then have Y: "length Y = n" "\<And>i. i < n \<Longrightarrow> length (Y ! i) = k"
      by (auto simp: shaped_def list_all_length)
    have by': "mm b y = Mat (mk n k (\<lambda>i j. \<Sum>l<n. B ! i ! l * Y ! l ! j))"
      using matmul_mat [of n B k Y] b mat unfolding B mm_def by simp
    have "mm (mm a b) y = Mat (mk n k (\<lambda>i j. \<Sum>l<n. mk n n (\<lambda>i j. \<Sum>l<n. A ! i ! l * B ! l ! j) ! i ! l * Y ! l ! j))"
      unfolding ab using matmul_mat [of n "mk n n (\<lambda>i j. \<Sum>l<n. A ! i ! l * B ! l ! j)" k Y] mat
      by (simp add: mm_def)
    also have "\<dots> = Mat (mk n k (\<lambda>i j. \<Sum>l<n. A ! i ! l * mk n k (\<lambda>i j. \<Sum>l<n. B ! i ! l * Y ! l ! j) ! l ! j))"
    proof -
      have "(\<Sum>l<n. mk n n (\<lambda>i j. \<Sum>l<n. A ! i ! l * B ! l ! j) ! i ! l * Y ! l ! j) =
            (\<Sum>l<n. A ! i ! l * mk n k (\<lambda>i j. \<Sum>l<n. B ! i ! l * Y ! l ! j) ! l ! j)"
        if "i < n" "j < k" for i j
      proof -
        have "(\<Sum>l<n. mk n n (\<lambda>i j. \<Sum>l<n. A ! i ! l * B ! l ! j) ! i ! l * Y ! l ! j) =
              (\<Sum>l<n. (\<Sum>m<n. A ! i ! m * B ! m ! l) * Y ! l ! j)"
          using that by (intro sum.cong) simp_all
        also have "\<dots> = (\<Sum>l<n. \<Sum>m<n. A ! i ! m * (B ! m ! l * Y ! l ! j))"
          by (simp add: sum_distrib_right mult.assoc)
        also have "\<dots> = (\<Sum>m<n. \<Sum>l<n. A ! i ! m * (B ! m ! l * Y ! l ! j))"
          by (rule sum.swap)
        also have "\<dots> = (\<Sum>m<n. A ! i ! m * (\<Sum>l<n. B ! m ! l * Y ! l ! j))"
          by (simp add: sum_distrib_left)
        also have "\<dots> = (\<Sum>l<n. A ! i ! l * mk n k (\<lambda>i j. \<Sum>l<n. B ! i ! l * Y ! l ! j) ! l ! j)"
          using that by (intro sum.cong) simp_all
        finally show ?thesis .
      qed
      then have "mk n k (\<lambda>i j. \<Sum>l<n. mk n n (\<lambda>i j. \<Sum>l<n. A ! i ! l * B ! l ! j) ! i ! l * Y ! l ! j) =
                 mk n k (\<lambda>i j. \<Sum>l<n. A ! i ! l * mk n k (\<lambda>i j. \<Sum>l<n. B ! i ! l * Y ! l ! j) ! l ! j)"
        by (rule mk_cong)
      then show ?thesis by (rule arg_cong)
    qed
    also have "\<dots> = mm a (mm b y)"
      unfolding by' A using matmul_mat [of n A k "mk n k (\<lambda>i j. \<Sum>l<n. B ! i ! l * Y ! l ! j)"] a
      by (simp add: mm_def A)
    finally show ?thesis .
  qed
qed

lemma bindR_Inr [simp]: "bindR (Inr x) f = f x"
  by (simp add: bindR_def)

lemma bindR_Inl [simp]: "bindR (Inl e) f = Inl e"
  by (simp add: bindR_def)

lemma bindR_assoc: "bindR (bindR m f) g = bindR m (\<lambda>x. bindR (f x) g)"
  by (cases m) simp_all

lemma bindR_return [simp]: "bindR m Inr = m"
  by (cases m) simp_all

lemma scan_take_step_upt:
  "bindR (scan (scan_take_step take_step rhs_func h n) (t, y) [a..<b]) (\<lambda>r. Inr (snd (fst r)))
     = take_steps take_step rhs_func (min n b - a) t y h"
proof (induction "b - a" arbitrary: a t y)
  case 0
  then show ?case by simp
next
  case (Suc d)
  then have ab: "a < b" and d: "d = b - Suc a" by simp_all
  have upt: "[a..<b] = a # [Suc a..<b]" using ab by (simp add: upt_conv_Cons)
  show ?case
  proof (cases "a < n")
    case True
    with ab have k: "min n b - a = Suc (min n b - Suc a)" by simp
    show ?thesis
    proof (cases "take_step rhs_func t y h")
      case (Inl e)
      with True show ?thesis
        unfolding upt k by (simp add: scan_take_step_def cond_def)
    next
      case (Inr y')
      have "bindR (scan (scan_take_step take_step rhs_func h n) (t, y) [a..<b])
              (\<lambda>r. Inr (snd (fst r))) =
            bindR (scan (scan_take_step take_step rhs_func h n) (t + h, y') [Suc a..<b])
              (\<lambda>r. Inr (snd (fst r)))"
        unfolding upt using True Inr
        by (cases "scan (scan_take_step take_step rhs_func h n) (t + h, y') [Suc a..<b]")
           (simp_all add: scan_take_step_def cond_def split: prod.splits)
      also have "\<dots> = take_steps take_step rhs_func (min n b - Suc a) (t + h) y' h"
        by (rule Suc.hyps(1) [OF d])
      finally show ?thesis unfolding k using Inr by simp
    qed
  next
    case False
    then have k: "min n b - a = 0" "min n b - Suc a = 0" by simp_all
    have "bindR (scan (scan_take_step take_step rhs_func h n) (t, y) [a..<b])
            (\<lambda>r. Inr (snd (fst r))) =
          bindR (scan (scan_take_step take_step rhs_func h n) (t + h, y) [Suc a..<b])
            (\<lambda>r. Inr (snd (fst r)))"
      unfolding upt using False
      by (cases "scan (scan_take_step take_step rhs_func h n) (t + h, y) [Suc a..<b]")
         (simp_all add: scan_take_step_def cond_def split: prod.splits)
    also have "\<dots> = take_steps take_step rhs_func (min n b - Suc a) (t + h) y h"
      by (rule Suc.hyps(1) [OF d])
    finally show ?thesis unfolding k by simp
  qed
qed

lemma scan_interval_integrate_eq:
  "scan_interval_integrate take_step rhs_func max_steps carry (current_t, h, n_steps) =
     bindR (take_steps take_step rhs_func (min n_steps max_steps) current_t carry h)
       (\<lambda>y. Inr (y, y))"
proof -
  have "take_steps take_step rhs_func (min n_steps max_steps) current_t carry h =
          bindR (scan (scan_take_step take_step rhs_func h n_steps) (current_t, carry)
                   [0..<max_steps]) (\<lambda>r. Inr (snd (fst r)))"
    using scan_take_step_upt [of take_step rhs_func h n_steps current_t carry 0 max_steps]
    by simp
  then show ?thesis
    by (simp add: scan_interval_integrate_def bindR_assoc Let_def)
qed

lemma scan_intervals_eq:
  assumes "\<forall>x \<in> set intervals. snd (snd x) \<le> max_steps"
  shows "bindR (scan (scan_interval_integrate take_step rhs_func max_steps) (last ys) intervals)
           (\<lambda>r. Inr (ys @ snd r)) =
         integrate_intervals take_step rhs_func ys intervals"
  using assms
proof (induction intervals arbitrary: ys)
  case Nil
  then show ?case by simp
next
  case (Cons x intervals)
  obtain current_t h n_steps where x: "x = (current_t, h, n_steps)" by (cases x) auto
  with Cons.prems have le: "min n_steps max_steps = n_steps"
    and rest: "\<forall>x \<in> set intervals. snd (snd x) \<le> max_steps" by simp_all
  show ?case
  proof (cases "take_steps take_step rhs_func n_steps current_t (last ys) h")
    case (Inl e)
    then show ?thesis by (simp add: x scan_interval_integrate_eq le)
  next
    case (Inr y)
    have "bindR (scan (scan_interval_integrate take_step rhs_func max_steps) (last ys)
                   (x # intervals)) (\<lambda>r. Inr (ys @ snd r)) =
          bindR (scan (scan_interval_integrate take_step rhs_func max_steps) (last (ys @ [y]))
                   intervals) (\<lambda>r. Inr ((ys @ [y]) @ snd r))"
      using Inr
      by (cases "scan (scan_interval_integrate take_step rhs_func max_steps) y intervals")
         (simp_all add: x scan_interval_integrate_eq le split: prod.splits)
    also have "\<dots> = integrate_intervals take_step rhs_func (ys @ [y]) intervals"
      by (rule Cons.IH [OF rest])
    finally show ?thesis using Inr by (simp add: x)
  qed
qed

lemma fold_max_ge: "(m::nat) \<le> fold max ns m"
proof (induction ns arbitrary: m)
  case Nil
  show ?case by simp
next
  case (Cons a ns)
  have "m \<le> max a m" by simp
  also have "max a m \<le> fold max ns (max a m)" by (rule Cons.IH)
  finally show ?case by simp
qed

lemma fold_max_upper: "n \<in> set ns \<Longrightarrow> (n::nat) \<le> fold max ns m"
proof (induction ns arbitrary: m)
  case Nil
  then show ?case by simp
next
  case (Cons a ns)
  show ?case
  proof (cases "n = a")
    case True
    have "a \<le> max a m" by simp
    also have "max a m \<le> fold max ns (max a m)" by (rule fold_max_ge)
    finally show ?thesis using True by simp
  next
    case False
    with Cons.prems have "n \<in> set ns" by simp
    from Cons.IH [OF this] show ?thesis by simp
  qed
qed

lemma np_max_upper:
  assumes "np_max ns = Inr m" and "n \<in> set ns"
  shows "n \<le> m"
proof (cases ns)
  case Nil
  with assms show ?thesis by simp
next
  case (Cons a rest)
  with assms(1) have m: "m = fold max rest a" by (simp add: np_max_def)
  show ?thesis
  proof (cases "n = a")
    case True
    then show ?thesis unfolding m by (simp add: fold_max_ge)
  next
    case False
    with assms(2) Cons have "n \<in> set rest" by simp
    then show ?thesis unfolding m by (rule fold_max_upper)
  qed
qed

lemma np_max_nonempty: "ns \<noteq> [] \<Longrightarrow> \<exists>m. np_max ns = Inr m"
  by (cases ns) (simp_all add: np_max_def)

lemma zip_butlast: "length ys < length xs \<Longrightarrow> zip (butlast xs) ys = zip xs ys"
proof (induction xs arbitrary: ys)
  case Nil
  then show ?case by simp
next
  case (Cons x xs)
  then show ?case by (cases ys) auto
qed

lemma jax_ys_eq:
  assumes "n_steps_list \<noteq> []"
    and "length h_list = length n_steps_list"
    and "length t_list = Suc (length h_list)"
  shows "jax_ys take_step rhs_func y0 (t_list, h_list, n_steps_list) =
         sequential_ys take_step rhs_func y0 (t_list, h_list, n_steps_list)"
proof -
  from np_max_nonempty [OF assms(1)] obtain max_steps
    where m: "np_max n_steps_list = Inr max_steps" by blast
  have z: "zip (butlast t_list) (zip h_list n_steps_list) = zip t_list (zip h_list n_steps_list)"
    using assms by (intro zip_butlast) simp
  have le: "\<forall>x \<in> set (zip t_list (zip h_list n_steps_list)). snd (snd x) \<le> max_steps"
  proof
    fix x assume "x \<in> set (zip t_list (zip h_list n_steps_list))"
    moreover obtain a b c where x: "x = (a, b, c)" by (cases x) auto
    ultimately have "(b, c) \<in> set (zip h_list n_steps_list)" by (auto dest: set_zip_rightD)
    then have "c \<in> set n_steps_list" by (rule set_zip_rightD)
    with m show "snd (snd x) \<le> max_steps" unfolding x by (simp add: np_max_upper)
  qed
  have "jax_ys take_step rhs_func y0 (t_list, h_list, n_steps_list) =
          bindR (scan (scan_interval_integrate take_step rhs_func max_steps) (last [y0])
                   (zip t_list (zip h_list n_steps_list))) (\<lambda>r. Inr ([y0] @ snd r))"
    by (simp add: jax_ys_def m z)
  also have "\<dots> = integrate_intervals take_step rhs_func [y0]
                       (zip t_list (zip h_list n_steps_list))"
    by (rule scan_intervals_eq [OF le])
  finally show ?thesis by (simp add: sequential_ys_def)
qed

lemma apply_props_simps [simp]:
  "apply_props [] y = y"
  "apply_props (P # Ps) y = apply_props Ps (mm P y)"
  "apply_props (Ps @ Qs) y = apply_props Qs (apply_props Ps y)"
  by (simp_all add: apply_props_def)

lemma apply_props_conforms:
  assumes "\<forall>P \<in> set Ps. shaped n n P" and "conforms n y"
  shows "conforms n (apply_props Ps y)"
  using assms
proof (induction Ps arbitrary: y)
  case Nil
  then show ?case by simp
next
  case (Cons P Ps)
  from Cons.prems have "conforms n (mm P y)" by (simp add: matmul_conforms)
  with Cons show ?case by simp
qed

lemma interval_props_shaped:
  assumes "\<And>t h. shaped n n (propagator t h)"
  shows "\<forall>P \<in> set (interval_props propagator x). shaped n n P"
  using assms by (cases x) (auto simp: interval_props_def)

lemma interval_props_Suc:
  "interval_props propagator (t, h, Suc k) = propagator t h # interval_props propagator (t + h, h, k)"
proof -
  have "[0..<Suc k] = 0 # map Suc [0..<k]"
    by (simp add: upt_conv_Cons map_Suc_upt del: upt_Suc)
  moreover have "propagator (t + h * real (Suc j)) h = propagator (t + h + h * real j) h" for j
    by (simp add: algebra_simps)
  ultimately show ?thesis
    by (simp add: interval_props_def comp_def del: upt_Suc of_nat_Suc)
qed

lemma take_steps_eq:
  assumes ts: "\<And>t y h. state_step g t y h = arr_matmul (take_step g t h) (Inr y)"
    and p: "\<And>t h. take_step g t h = Inr (propagator t h)"
    and s: "\<And>t h. shaped n n (propagator t h)"
    and y: "conforms n y"
  shows "take_steps state_step g k t y h = Inr (apply_props (interval_props propagator (t, h, k)) y)"
  using y
proof (induction k arbitrary: t y)
  case 0
  show ?case by (simp add: interval_props_def)
next
  case (Suc k)
  from matmul_conforms [OF s Suc.prems]
  have m: "np_matmul (propagator t h) y = Inr (mm (propagator t h) y)" and c: "conforms n (mm (propagator t h) y)"
    by simp_all
  have "state_step g t y h = Inr (mm (propagator t h) y)"
    by (simp add: ts p arr_matmul_def lift2_def m)
  then show ?case
    by (simp add: Suc.IH [OF c] interval_props_Suc)
qed

lemma integrate_intervals_eq:
  assumes ts: "\<And>t y h. state_step g t y h = arr_matmul (take_step g t h) (Inr y)"
    and p: "\<And>t h. take_step g t h = Inr (propagator t h)"
    and s: "\<And>t h. shaped n n (propagator t h)"
    and y: "conforms n (last ys)"
  shows "integrate_intervals state_step g ys intervals =
           Inr (ys @ seq_values propagator (last ys) intervals)"
  using y
proof (induction intervals arbitrary: ys)
  case Nil
  show ?case by simp
next
  case (Cons x intervals)
  obtain t h k where x: "x = (t, h, k)" by (cases x) auto
  define y' where "y' = apply_props (interval_props propagator x) (last ys)"
  have c: "conforms n (last (ys @ [y']))"
    unfolding y'_def using interval_props_shaped [of n propagator x] s Cons.prems
    by (simp add: apply_props_conforms)
  have "take_steps state_step g k t (last ys) h = Inr y'"
    unfolding y'_def x
    by (rule take_steps_eq [where state_step = state_step and g = g and take_step = take_step
          and propagator = propagator, OF ts p s Cons.prems])
  then show ?case
    using Cons.IH [OF c] by (simp add: x y'_def)
qed

lemma all_steps_eq:
  "all_steps intervals (a, b, c) =
     (a @ step_times intervals, b @ step_sizes intervals, c @ offsets (last c) intervals)"
proof (induction intervals arbitrary: a b c)
  case Nil
  show ?case by simp
next
  case (Cons x intervals)
  obtain t h n where x: "x = (t, h, n)" by (cases x) auto
  show ?case unfolding x by (simp add: Cons.IH)
qed

lemma zip_replicate_right: "zip xs (replicate (length xs) h) = map (\<lambda>x. (x, h)) xs"
  by (induction xs) simp_all

lemma map2_step_times:
  "map2 f (step_times intervals) (step_sizes intervals) =
     concat (map (\<lambda>x. case x of (t, h, n) \<Rightarrow> map (\<lambda>k. f (t + h * real k) h) [0..<n]) intervals)"
proof (induction intervals)
  case Nil
  show ?case by simp
next
  case (Cons x intervals)
  obtain t h n where x: "x = (t, h, n)" by (cases x) auto
  have "zip (map (\<lambda>k. t + h * real k) [0..<n]) (replicate n h) =
          map (\<lambda>x. (x, h)) (map (\<lambda>k. t + h * real k) [0..<n])"
    using zip_replicate_right [of "map (\<lambda>k. t + h * real k) [0..<n]" h] by simp
  then show ?case unfolding x using Cons.IH by (simp add: zip_append comp_def)
qed

lemma sequence_map_Inr: "sequence (map Inr xs) = Inr xs"
  by (induction xs) simp_all

lemma step_propagators_eq:
  assumes p: "\<And>t h. take_step g t h = Inr (propagator t h)"
  shows "sequence (map2 (\<lambda>t h. take_step g t h) (step_times intervals) (step_sizes intervals)) =
           Inr (all_props propagator intervals)"
proof -
  have "map2 (\<lambda>t h. take_step g t h) (step_times intervals) (step_sizes intervals) =
          map Inr (all_props propagator intervals)"
    unfolding map2_step_times all_props_def
    by (induction intervals) (auto simp: interval_props_def p)
  then show ?thesis by (simp only: sequence_map_Inr)
qed

lemma all_props_shaped:
  assumes "\<And>t h. shaped n n (propagator t h)"
  shows "\<forall>P \<in> set (all_props propagator intervals). shaped n n P"
  using interval_props_shaped [of n propagator] assms by (auto simp: all_props_def)

lemma scan_from_eq:
  assumes "\<forall>P \<in> set Ps. shaped n n P" and "conforms n acc"
  shows "scan_from reverse_mul acc Ps = Inr (prefixes acc Ps)"
  using assms
proof (induction Ps arbitrary: acc)
  case Nil
  show ?case by simp
next
  case (Cons P Ps)
  from Cons.prems have P: "shaped n n P" by simp
  from matmul_conforms [OF P Cons.prems(2)]
  have m: "np_matmul P acc = Inr (mm P acc)" and c: "conforms n (mm P acc)" by simp_all
  from Cons.prems have "\<forall>P \<in> set Ps. shaped n n P" by simp
  from Cons.IH [OF this c] m show ?case by (simp add: reverse_mul_def)
qed

lemma prefixes_shaped:
  assumes "\<forall>P \<in> set Ps. shaped n n P" and "shaped n n acc"
  shows "\<forall>Q \<in> set (prefixes acc Ps). shaped n n Q"
  using assms
proof (induction Ps arbitrary: acc)
  case Nil
  show ?case by simp
next
  case (Cons P Ps)
  from Cons.prems have "shaped n n (mm P acc)" by (simp add: matmul_shaped)
  with Cons show ?case by simp
qed

lemma length_prefixes [simp]: "length (prefixes acc Ps) = length Ps"
  by (induction Ps arbitrary: acc) simp_all

lemma nth_prefixes:
  "j \<le> length Ps \<Longrightarrow> (y # prefixes y Ps) ! j = apply_props (take j Ps) y"
proof (induction Ps arbitrary: y j)
  case Nil
  then show ?case by simp
next
  case (Cons P Ps)
  show ?case
  proof (cases j)
    case 0
    then show ?thesis by simp
  next
    case (Suc i)
    with Cons.prems have "i \<le> length Ps" by simp
    from Cons.IH [OF this, of "mm P y"] Suc show ?thesis by simp
  qed
qed

lemma map_mm_prefixes:
  assumes "\<forall>P \<in> set Ps. shaped n n P" and "shaped n n acc" and "conforms n y"
  shows "map (\<lambda>Q. mm Q y) (prefixes acc Ps) = prefixes (mm acc y) Ps"
  using assms(1,2)
proof (induction Ps arbitrary: acc)
  case Nil
  show ?case by simp
next
  case (Cons P Ps)
  from Cons.prems have P: "shaped n n P" and rest: "\<forall>P \<in> set Ps. shaped n n P" by simp_all
  have a: "mm (mm P acc) y = mm P (mm acc y)"
    by (rule mm_assoc [OF P Cons.prems(2) assms(3)])
  have "shaped n n (mm P acc)" using P Cons.prems(2) by (simp add: matmul_shaped)
  from Cons.IH [OF rest this] a show ?case by simp
qed

lemma sequence_map_matmul:
  assumes "\<forall>Q \<in> set Qs. shaped n n Q" and "conforms n y"
  shows "sequence (map (\<lambda>P. np_matmul P y) Qs) = Inr (map (\<lambda>Q. mm Q y) Qs)"
  using assms
proof (induction Qs)
  case Nil
  show ?case by simp
next
  case (Cons Q Qs)
  from Cons.prems have Q: "shaped n n Q" by simp
  from matmul_conforms [OF Q Cons.prems(2)] have "np_matmul Q y = Inr (mm Q y)" by simp
  with Cons show ?case by simp
qed

lemma index1_nat: "0 \<le> i \<Longrightarrow> i < int (length xs) \<Longrightarrow> index1 xs i = Inr (xs ! nat i)"
  by (simp add: index1_def)

lemma index_array_eq:
  assumes "\<forall>i \<in> set idx. 0 \<le> i \<and> i < int (length xs)"
  shows "index_array xs idx = Inr (map (\<lambda>i. xs ! nat i) idx)"
  using assms unfolding index_array_def
  by (induction idx) (simp_all add: index1_nat)

lemma length_interval_props [simp]: "length (interval_props propagator (t, h, n)) = n"
  by (simp add: interval_props_def)

lemma offsets_bounds:
  assumes "l \<in> set (offsets c intervals)"
  shows "c \<le> l \<and> l \<le> c + int (length (all_props propagator intervals))"
  using assms
proof (induction intervals arbitrary: c)
  case Nil
  then show ?case by simp
next
  case (Cons x intervals)
  obtain t h n where x: "x = (t, h, n)" by (cases x) auto
  from Cons.prems consider "l = c + int n" | "l \<in> set (offsets (c + int n) intervals)"
    unfolding x by auto
  then show ?case
  proof cases
    case 1
    then show ?thesis by (simp add: x all_props_def)
  next
    case 2
    from Cons.IH [OF this] show ?thesis by (simp add: x all_props_def)
  qed
qed

lemma offsets_positive:
  assumes "l \<in> set (offsets c intervals)" and "\<forall>x \<in> set intervals. 1 \<le> snd (snd x)"
  shows "c < l"
  using assms
proof (induction intervals arbitrary: c)
  case Nil
  then show ?case by simp
next
  case (Cons x intervals)
  obtain t h n where x: "x = (t, h, n)" by (cases x) auto
  from Cons.prems(2) have n: "1 \<le> n" and rest: "\<forall>x \<in> set intervals. 1 \<le> snd (snd x)"
    by (simp_all add: x)
  from Cons.prems(1) consider "l = c + int n" | "l \<in> set (offsets (c + int n) intervals)"
    unfolding x by auto
  then show ?case
  proof cases
    case 1
    with n show ?thesis by simp
  next
    case 2
    from Cons.IH [OF this rest] show ?thesis by simp
  qed
qed

lemma offsets_values:
  "map (\<lambda>l. (y0 # prefixes y0 (Qs @ all_props propagator intervals)) ! nat l)
       (offsets (int (length Qs)) intervals) =
   seq_values propagator (apply_props Qs y0) intervals"
proof (induction intervals arbitrary: Qs)
  case Nil
  show ?case by simp
next
  case (Cons x intervals)
  obtain t h n where x: "x = (t, h, n)" by (cases x) auto
  define ip where "ip = interval_props propagator x"
  have len: "length ip = n" by (simp add: ip_def x)
  have ap: "Qs @ all_props propagator (x # intervals) = (Qs @ ip) @ all_props propagator intervals"
    by (simp add: all_props_def ip_def)
  have off: "int (length Qs) + int n = int (length (Qs @ ip))" by (simp add: len)
  have first: "(y0 # prefixes y0 ((Qs @ ip) @ all_props propagator intervals)) !
                 nat (int (length (Qs @ ip))) = apply_props ip (apply_props Qs y0)"
  proof -
    have t: "take (length (Qs @ ip)) ((Qs @ ip) @ all_props propagator intervals) = Qs @ ip"
      by simp
    have "(y0 # prefixes y0 ((Qs @ ip) @ all_props propagator intervals)) ! length (Qs @ ip) =
            apply_props (take (length (Qs @ ip)) ((Qs @ ip) @ all_props propagator intervals)) y0"
      by (rule nth_prefixes) simp
    also have "\<dots> = apply_props (Qs @ ip) y0" by (simp only: t)
    also have "\<dots> = apply_props ip (apply_props Qs y0)" by simp
    finally show ?thesis unfolding nat_int .
  qed
  show ?case
    unfolding ap x offsets.simps off seq_values.simps
    using first Cons.IH [of "Qs @ ip"]
    by (simp add: ip_def x all_props_def)
qed

lemma parallel_compose_eq:
  assumes s: "\<And>t h. shaped n n (propagator t h)"
    and y: "conforms n y0"
    and ne: "intervals \<noteq> []"
    and pos: "\<forall>x \<in> set intervals. 1 \<le> snd (snd x)"
  shows "parallel_compose y0 (all_props propagator intervals) (0 # offsets 0 intervals) =
           Inr (y0 # seq_values propagator y0 intervals)"
proof -
  define Ps where "Ps = all_props propagator intervals"
  have sh: "\<forall>P \<in> set Ps. shaped n n P" unfolding Ps_def by (rule all_props_shaped [OF s])
  have vals: "map (\<lambda>l. (y0 # prefixes y0 Ps) ! nat l) (offsets 0 intervals) =
                seq_values propagator y0 intervals"
    using offsets_values [of y0 "[]" propagator intervals] by (simp add: Ps_def)
  have bounds: "0 \<le> l \<and> l \<le> int (length Ps)" if "l \<in> set (offsets 0 intervals)" for l
    using offsets_bounds [OF that, of propagator] by (simp add: Ps_def)
  have positive: "0 < l" if "l \<in> set (offsets 0 intervals)" for l
    using offsets_positive [OF that pos] .
  show ?thesis
  proof (cases "ndim y0 = 2 \<and> shape y0 ! 0 = shape y0 ! 1")
    case True
    have sc: "associative_scan reverse_mul (y0 # Ps) = Inr (y0 # prefixes y0 Ps)"
      by (simp add: associative_scan_def scan_from_eq [OF sh y])
    have "index_array (y0 # prefixes y0 Ps) (0 # offsets 0 intervals) =
            Inr (map (\<lambda>i. (y0 # prefixes y0 Ps) ! nat i) (0 # offsets 0 intervals))"
    proof (rule index_array_eq, rule ballI)
      fix i assume "i \<in> set (0 # offsets 0 intervals)"
      then consider "i = 0" | "i \<in> set (offsets 0 intervals)" by auto
      then show "0 \<le> i \<and> i < int (length (y0 # prefixes y0 Ps))"
      proof cases
        case 1
        then show ?thesis by simp
      next
        case 2
        from bounds [OF this] show ?thesis by simp
      qed
    qed
    with sc vals show ?thesis
      unfolding Ps_def [symmetric] parallel_compose_def if_P [OF True] by simp
  next
    case False
    from ne obtain x rest where iv: "intervals = x # rest" by (cases intervals) auto
    obtain t h k where x: "x = (t, h, k)" by (cases x) auto
    from pos have k: "1 \<le> k" by (simp add: iv x)
    then obtain k' where k': "k = Suc k'" by (cases k) auto
    have "Ps \<noteq> []" unfolding Ps_def iv x k' by (simp add: all_props_def interval_props_def)
    then obtain P rest' where Ps: "Ps = P # rest'" by (cases Ps) auto
    from sh have P: "shaped n n P" and rest': "\<forall>P \<in> set rest'. shaped n n P"
      by (simp_all add: Ps)
    have allsh: "\<forall>Q \<in> set (P # prefixes P rest'). shaped n n Q"
      using prefixes_shaped [OF rest' P] P by simp
    have sc: "associative_scan reverse_mul Ps = Inr (P # prefixes P rest')"
      unfolding Ps by (simp add: associative_scan_def scan_from_eq [OF rest' shaped_conforms [OF P]])
    have idx: "index_array (P # prefixes P rest') (map (\<lambda>l. l - 1) (offsets 0 intervals)) =
                 Inr (map (\<lambda>i. (P # prefixes P rest') ! nat i)
                        (map (\<lambda>l. l - 1) (offsets 0 intervals)))"
    proof (rule index_array_eq, rule ballI)
      fix i assume "i \<in> set (map (\<lambda>l. l - 1) (offsets 0 intervals))"
      then obtain l where l: "l \<in> set (offsets 0 intervals)" and i: "i = l - 1" by auto
      from bounds [OF l] positive [OF l] show "0 \<le> i \<and> i < int (length (P # prefixes P rest'))"
        unfolding i by (simp add: Ps)
    qed
    define selected where
      "selected = map (\<lambda>i. (P # prefixes P rest') ! nat i) (map (\<lambda>l. l - 1) (offsets 0 intervals))"
    have selsh: "\<forall>Q \<in> set selected. shaped n n Q"
    proof
      fix Q assume "Q \<in> set selected"
      then obtain l where l: "l \<in> set (offsets 0 intervals)"
        and Q: "Q = (P # prefixes P rest') ! nat (l - 1)"
        unfolding selected_def by auto
      from bounds [OF l] positive [OF l] have "nat (l - 1) < length (P # prefixes P rest')"
        by (simp add: Ps)
      then have "(P # prefixes P rest') ! nat (l - 1) \<in> set (P # prefixes P rest')"
        by (rule nth_mem)
      with allsh show "shaped n n Q" unfolding Q by blast
    qed
    have mul: "sequence (map (\<lambda>P. np_matmul P y0) selected) = Inr (map (\<lambda>Q. mm Q y0) selected)"
      by (rule sequence_map_matmul [OF selsh y])
    have "map (\<lambda>Q. mm Q y0) selected =
            map (\<lambda>l. (y0 # prefixes y0 Ps) ! nat l) (offsets 0 intervals)"
    proof -
      have "mm ((P # prefixes P rest') ! nat (l - 1)) y0 = (y0 # prefixes y0 Ps) ! nat l"
        if l: "l \<in> set (offsets 0 intervals)" for l
      proof -
        from bounds [OF l] positive [OF l] have j: "nat (l - 1) < length (P # prefixes P rest')"
          and nl: "nat l = Suc (nat (l - 1))" by (simp_all add: Ps)
        have "mm ((P # prefixes P rest') ! nat (l - 1)) y0 =
                map (\<lambda>Q. mm Q y0) (P # prefixes P rest') ! nat (l - 1)"
          using j by (simp only: nth_map)
        also have "map (\<lambda>Q. mm Q y0) (P # prefixes P rest') = prefixes y0 Ps"
          unfolding Ps using map_mm_prefixes [OF rest' P y] by simp
        finally show ?thesis unfolding nl by simp
      qed
      then show ?thesis unfolding selected_def by (simp add: comp_def)
    qed
    with vals have "map (\<lambda>Q. mm Q y0) selected = seq_values propagator y0 intervals" by simp
    with sc idx mul show ?thesis
      unfolding Ps_def [symmetric] selected_def [symmetric] parallel_compose_def
        if_not_P [OF False]
      by simp
  qed
qed

lemma parallel_ys_eq:
  assumes p: "\<And>t h. take_step g t h = Inr (propagator t h)"
    and s: "\<And>t h. shaped n n (propagator t h)"
    and y: "conforms n y0"
    and ne: "zip t_list (zip h_list n_steps_list) \<noteq> []"
    and pos: "\<forall>k \<in> set n_steps_list. 1 \<le> k"
  shows "parallel_ys take_step g y0 (t_list, h_list, n_steps_list) =
           Inr (y0 # seq_values propagator y0 (zip t_list (zip h_list n_steps_list)))"
proof -
  let ?iv = "zip t_list (zip h_list n_steps_list)"
  have pos': "\<forall>x \<in> set ?iv. 1 \<le> snd (snd x)"
  proof
    fix x assume "x \<in> set ?iv"
    moreover obtain a b c where x: "x = (a, b, c)" by (cases x) auto
    ultimately have "(b, c) \<in> set (zip h_list n_steps_list)"
      by (auto dest: set_zip_rightD)
    then have "c \<in> set n_steps_list" by (rule set_zip_rightD)
    with pos show "1 \<le> snd (snd x)" unfolding x by simp
  qed
  have a: "all_steps ?iv ([], [], [0]) = (step_times ?iv, step_sizes ?iv, 0 # offsets 0 ?iv)"
    by (simp add: all_steps_eq)
  have sp: "sequence (map2 (\<lambda>t h. take_step g t h) (step_times ?iv) (step_sizes ?iv)) =
              Inr (all_props propagator ?iv)"
    by (rule step_propagators_eq [where take_step = take_step and g = g
          and propagator = propagator, OF p])
  have pc: "parallel_compose y0 (all_props propagator ?iv) (0 # offsets 0 ?iv) =
              Inr (y0 # seq_values propagator y0 ?iv)"
    by (rule parallel_compose_eq [where propagator = propagator, OF s y ne pos'])
  have "parallel_ys take_step g y0 (t_list, h_list, n_steps_list) =
          bindR (sequence (map2 (\<lambda>t h. take_step g t h) (step_times ?iv) (step_sizes ?iv)))
            (\<lambda>step_propagators. parallel_compose y0 step_propagators (0 # offsets 0 ?iv))"
    unfolding parallel_ys_def prod.case Let_def a if_not_P [OF ne] ..
  also have "\<dots> = Inr (y0 # seq_values propagator y0 ?iv)"
    unfolding sp using pc by simp
  finally show ?thesis .
qed

lemma sequential_ys_eq:
  assumes ts: "\<And>t y h. state_step g t y h = arr_matmul (take_step g t h) (Inr y)"
    and p: "\<And>t h. take_step g t h = Inr (propagator t h)"
    and s: "\<And>t h. shaped n n (propagator t h)"
    and y: "conforms n y0"
  shows "sequential_ys state_step g y0 (t_list, h_list, n_steps_list) =
           Inr (y0 # seq_values propagator y0 (zip t_list (zip h_list n_steps_list)))"
  using integrate_intervals_eq [where state_step = state_step and g = g
      and take_step = take_step and propagator = propagator and ys = "[y0]", OF ts p s]
    y
  by (simp add: sequential_ys_def)

lemma grid_lengths:
  assumes "get_fixed_step_sizes t_span t_eval max_dt = Inr (t_list, h_list, n_steps_list)"
  shows "length h_list = length t_list - 1" and "length n_steps_list = length t_list - 1"
    and "\<forall>k \<in> set n_steps_list. 1 \<le> k"
  using get_fixed_step_sizes_Inr [OF assms] n_steps_of_pos
  by (auto simp: length_np_diff)

text \<open>
  The JAX sequential template on a grid with at least one interval, one step size and one step
  count for each interval: the scan of \<open>fixed_step_solver_template_jax\<close> produces the
  trajectory of \<open>fixed_step_solver_template\<close>, \<open>y0\<close> first, and raises where it raises; so
  the two templates agree whenever \<open>get_fixed_step_sizes\<close> returns such a grid. Each interval
  is run for \<open>max(n_steps_list)\<close> iterations, of which the first \<open>n\<^sub>i\<close> take a step of size
  \<open>h\<^sub>i\<close> and the others leave the state as it is (\<open>scan_interval_integrate_eq\<close>).
\<close>

theorem jax_template_equivalence:
  assumes "n_steps_list \<noteq> []"
    and "length h_list = length n_steps_list"
    and "length t_list = Suc (length h_list)"
  shows "jax_ys take_step rhs_func y0 (t_list, h_list, n_steps_list) =
           sequential_ys take_step rhs_func y0 (t_list, h_list, n_steps_list) \<and>
         (get_fixed_step_sizes t_span t_eval max_dt = Inr (t_list, h_list, n_steps_list) \<longrightarrow>
            fixed_step_solver_template_jax take_step rhs_func t_span y0 max_dt t_eval =
            fixed_step_solver_template take_step rhs_func t_span y0 max_dt t_eval)"
  using jax_ys_eq [OF assms, of take_step rhs_func y0]
  by (simp add: fixed_step_solver_template_jax_def fixed_step_solver_template_def)

text \<open>
  An instance with the step counts 1 and 2: the first interval is padded to two iterations, of
  which the second is the identity. The step \<open>y + h * (g + t)\<close> depends on the time, so the
  values also show the times at which the steps are taken.
\<close>

theorem jax_template_equivalence_witness:
  "get_fixed_step_sizes (0, 3) (Some [0, 1, 3]) 1 = Inr ([0, 1, 3], [1, 1], [1, 2]) \<and>
   jax_ys (\<lambda>g t y h. Inr (y + h * (g + t))) (2::real) (1::real) ([0, 1, 3], [1, 1], [1, 2]) =
     Inr [1, 3, 10] \<and>
   sequential_ys (\<lambda>g t y h. Inr (y + h * (g + t))) (2::real) (1::real)
     ([0, 1, 3], [1, 1], [1, 2]) = Inr [1, 3, 10] \<and>
   fixed_step_solver_template_jax (\<lambda>g t y h. Inr (y + h * (g + t))) (2::real) (0, 3) (1::real) 1
     (Some [0, 1, 3]) = Inr \<lparr>ode_t = [0, 1, 3], ode_y = [1, 3, 10]\<rparr> \<and>
   fixed_step_solver_template (\<lambda>g t y h. Inr (y + h * (g + t))) (2::real) (0, 3) (1::real) 1
     (Some [0, 1, 3]) = Inr \<lparr>ode_t = [0, 1, 3], ode_y = [1, 3, 10]\<rparr>"
proof -
  have g: "get_fixed_step_sizes (0, 3) (Some [0, 1, 3]) 1 = Inr ([0, 1, 3], [1, 1], [1, 2])"
    by (simp add: get_fixed_step_sizes_def merge_t_args_def in_span_def
          initial_n_steps_def correct_n_steps_def Let_def)
  have s: "sequential_ys (\<lambda>g t y h. Inr (y + h * (g + t))) (2::real) (1::real)
             ([0, 1, 3], [1, 1], [1, 2]) = Inr [1, 3, 10]"
    by (simp add: sequential_ys_def eval_nat_numeral)
  have t: "fixed_step_solver_template (\<lambda>g t y h. Inr (y + h * (g + t))) (2::real) (0, 3)
             (1::real) 1 (Some [0, 1, 3]) = Inr \<lparr>ode_t = [0, 1, 3], ode_y = [1, 3, 10]\<rparr>"
    by (simp only: fixed_step_solver_template_def g bindR_Inr s)
       (simp add: trim_t_results_def)
  have "([1, 2] :: nat list) \<noteq> []" "length [1, 1 :: real] = length [1, 2 :: nat]"
    "length [0, 1, 3 :: real] = Suc (length [1, 1 :: real])" by simp_all
  from jax_template_equivalence [OF this, where take_step = "\<lambda>g t y h. Inr (y + h * (g + t))"
      and rhs_func = "2::real" and ?y0.0 = "1::real" and t_span = "(0, 3)"
      and t_eval = "Some [0, 1, 3]" and max_dt = 1] g s t
  show ?thesis by simp
qed

text \<open>
  C10 (the JAX sequential template against the plain one). The claim is that the two templates
  return the same trajectory for every grid. On a grid without intervals they do not: for
  \<open>t_span = (0, 0)\<close> with \<open>t_eval = [0]\<close> the merged grid is the single breakpoint \<open>0\<close>,
  \<open>n_steps_list\<close> is empty, \<open>n_steps_list.max()\<close> raises in the JAX template, and the plain
  template returns \<open>y0\<close> at \<open>0\<close>.
\<close>

theorem jax_template_empty_grid:
  "get_fixed_step_sizes (0, 0) (Some [0]) 1 = Inr ([0], [], []) \<and>
   jax_ys (\<lambda>g t y h. Inr (Suc y)) () 0 ([0], [], []) = Inl ValueError \<and>
   sequential_ys (\<lambda>g t y h. Inr (Suc y)) () 0 ([0], [], []) = Inr [0] \<and>
   fixed_step_solver_template_jax (\<lambda>g t y h. Inr (Suc y)) () (0, 0) 0 1 (Some [0]) =
     Inl ValueError \<and>
   fixed_step_solver_template (\<lambda>g t y h. Inr (Suc y)) () (0, 0) 0 1 (Some [0]) =
     Inr \<lparr>ode_t = [0], ode_y = [0]\<rparr>"
  by (simp add: bindR_def jax_ys_def sequential_ys_def np_max_def fixed_step_solver_template_jax_def
      fixed_step_solver_template_def get_fixed_step_sizes_def merge_t_args_def in_span_def
      trim_t_results_def)

text \<open>
  The two modes on a grid with at least one interval. Let the propagator-only step rule return
  square matrices of one dimension \<open>n\<close>, let the state-space step be the propagator applied to
  the state, and let \<open>y0\<close> be a vector of length \<open>n\<close> or a matrix with \<open>n\<close> rows. Then the
  parallel composer and the sequential template return the same trajectory, with one value for
  each breakpoint and \<open>y0\<close> first. The scan combines with \<open>reverse_mul A B = B @ A\<close>, so the
  step propagators are applied first to last, and the proof moves \<open>y0\<close> through the products by
  associativity (\<open>mm_assoc\<close>).
\<close>

theorem mode_equivalence:
  assumes ts: "\<And>t y h. state_step generator t y h = arr_matmul (take_step generator t h) (Inr y)"
    and p: "\<And>t h. \<exists>M. take_step generator t h = Inr M \<and> shaped n n M"
    and y: "conforms n y0"
    and g: "get_fixed_step_sizes t_span t_eval max_dt = Inr (t_list, h_list, n_steps_list)"
    and ne: "n_steps_list \<noteq> []"
  shows "\<exists>ys. parallel_ys take_step generator y0 (t_list, h_list, n_steps_list) = Inr ys \<and>
              sequential_ys state_step generator y0 (t_list, h_list, n_steps_list) = Inr ys \<and>
              length ys = length t_list \<and> hd ys = y0 \<and>
              fixed_step_lmde_solver_parallel_template_jax take_step generator t_span y0 max_dt
                t_eval =
              fixed_step_solver_template state_step generator t_span y0 max_dt t_eval"
proof -
  define propagator where "propagator = (\<lambda>t h. projr (take_step generator t h))"
  have p': "take_step generator t h = Inr (propagator t h)" for t h
    using p [of t h] by (auto simp: propagator_def)
  have s: "shaped n n (propagator t h)" for t h
    using p [of t h] by (auto simp: propagator_def)
  from grid_lengths [OF g] ne
  have len: "length h_list = length n_steps_list" "length t_list = Suc (length n_steps_list)"
    and pos: "\<forall>k \<in> set n_steps_list. 1 \<le> k"
    by (cases n_steps_list; simp)+
  let ?iv = "zip t_list (zip h_list n_steps_list)"
  from len ne have ne': "?iv \<noteq> []" by (cases t_list; cases h_list; cases n_steps_list) simp_all
  define ys where "ys = y0 # seq_values propagator y0 ?iv"
  have par: "parallel_ys take_step generator y0 (t_list, h_list, n_steps_list) = Inr ys"
    unfolding ys_def
    by (rule parallel_ys_eq [where take_step = take_step and g = generator
          and propagator = propagator, OF p' s y ne' pos])
  have seq: "sequential_ys state_step generator y0 (t_list, h_list, n_steps_list) = Inr ys"
    unfolding ys_def
    by (rule sequential_ys_eq [where state_step = state_step and g = generator
          and take_step = take_step and propagator = propagator, OF ts p' s y])
  have "length (seq_values propagator y0 iv) = length iv" for iv
    by (induction iv arbitrary: y0) simp_all
  then have l: "length ys = length t_list" using len by (simp add: ys_def)
  have "fixed_step_lmde_solver_parallel_template_jax take_step generator t_span y0 max_dt t_eval =
        fixed_step_solver_template state_step generator t_span y0 max_dt t_eval"
    by (simp add: fixed_step_lmde_solver_parallel_template_jax_def fixed_step_solver_template_def
          g par seq)
  with par seq l show ?thesis by (auto simp: ys_def)
qed

text \<open>
  An instance with step propagators that do not commute, on a grid with the step counts 1 and
  2, once for a vector and once for a square matrix as \<open>y0\<close>: with the products in the other
  order the last value would differ.
\<close>

theorem mode_equivalence_witness:
  "get_fixed_step_sizes (0, 3) (Some [0, 1, 3]) 1 = Inr ([0, 1, 3], [1, 1], [1, 2]) \<and>
   fixed_step_lmde_solver_parallel_template_jax
     (\<lambda>g t h. Inr (Mat [[1, of_real (t + h)], [of_real h, 1]])) () (0, 3) (Vec [1, 0]) 1
     (Some [0, 1, 3]) =
     Inr \<lparr>ode_t = [0, 1, 3], ode_y = [Vec [1, 0], Vec [1, 1], Vec [9, 5]]\<rparr> \<and>
   fixed_step_solver_template
     (\<lambda>g t y h. arr_matmul (Inr (Mat [[1, of_real (t + h)], [of_real h, 1]])) (Inr y)) ()
     (0, 3) (Vec [1, 0]) 1 (Some [0, 1, 3]) =
     Inr \<lparr>ode_t = [0, 1, 3], ode_y = [Vec [1, 0], Vec [1, 1], Vec [9, 5]]\<rparr> \<and>
   fixed_step_lmde_solver_parallel_template_jax
     (\<lambda>g t h. Inr (Mat [[1, of_real (t + h)], [of_real h, 1]])) () (0, 3)
     (Mat [[1, 2], [0, 1]]) 1 (Some [0, 1, 3]) =
     Inr \<lparr>ode_t = [0, 1, 3],
          ode_y = [Mat [[1, 2], [0, 1]], Mat [[1, 3], [1, 3]], Mat [[9, 27], [5, 15]]]\<rparr> \<and>
   fixed_step_solver_template
     (\<lambda>g t y h. arr_matmul (Inr (Mat [[1, of_real (t + h)], [of_real h, 1]])) (Inr y)) ()
     (0, 3) (Mat [[1, 2], [0, 1]]) 1 (Some [0, 1, 3]) =
     Inr \<lparr>ode_t = [0, 1, 3],
          ode_y = [Mat [[1, 2], [0, 1]], Mat [[1, 3], [1, 3]], Mat [[9, 27], [5, 15]]]\<rparr>"
proof -
  let ?P = "\<lambda>g t h. Inr (Mat [[1, of_real (t + h)], [of_real h, 1]]) :: ndarray result"
  let ?S = "\<lambda>g t y h. arr_matmul (Inr (Mat [[1, of_real (t + h)], [of_real h, 1]])) (Inr y)"
  have g: "get_fixed_step_sizes (0, 3) (Some [0, 1, 3]) 1 = Inr ([0, 1, 3], [1, 1], [1, 2])"
    by (simp add: get_fixed_step_sizes_def merge_t_args_def in_span_def
          initial_n_steps_def correct_n_steps_def Let_def)
  have v: "fixed_step_solver_template ?S () (0, 3) (Vec [1, 0]) 1 (Some [0, 1, 3]) =
     Inr \<lparr>ode_t = [0, 1, 3], ode_y = [Vec [1, 0], Vec [1, 1], Vec [9, 5]]\<rparr>"
    unfolding fixed_step_solver_template_def g bindR_Inr
    by (simp add: sequential_ys_def trim_t_results_def
          eval_nat_numeral arr_matmul_def lift2_def ncols_def)
  have m: "fixed_step_solver_template ?S () (0, 3) (Mat [[1, 2], [0, 1]]) 1 (Some [0, 1, 3]) =
     Inr \<lparr>ode_t = [0, 1, 3],
          ode_y = [Mat [[1, 2], [0, 1]], Mat [[1, 3], [1, 3]], Mat [[9, 27], [5, 15]]]\<rparr>"
    unfolding fixed_step_solver_template_def g bindR_Inr
    by (simp add: sequential_ys_def trim_t_results_def
          eval_nat_numeral arr_matmul_def lift2_def ncols_def mk_def)
  have y1: "conforms 2 (Vec [1, 0])" by (simp add: conforms_def)
  have y2: "conforms 2 (Mat [[1, 2], [0, 1]])" by (simp add: conforms_def ncols_def)
  have ne: "[1, 2::nat] \<noteq> []" by simp
  have p: "\<exists>M. ?P () t h = Inr M \<and> shaped 2 2 M" for t h :: real
    by (simp add: shaped_def)
  have ts: "?S () t y h = arr_matmul (?P () t h) (Inr y)" for t h :: real and y
    by simp
  from mode_equivalence [where state_step = ?S and take_step = ?P and generator = "()"
      and n = 2, OF ts p y1 g ne]
  have e1: "fixed_step_lmde_solver_parallel_template_jax ?P () (0, 3) (Vec [1, 0]) 1
              (Some [0, 1, 3]) =
            fixed_step_solver_template ?S () (0, 3) (Vec [1, 0]) 1 (Some [0, 1, 3])"
    by blast
  from mode_equivalence [where state_step = ?S and take_step = ?P and generator = "()"
      and n = 2, OF ts p y2 g ne]
  have e2: "fixed_step_lmde_solver_parallel_template_jax ?P () (0, 3) (Mat [[1, 2], [0, 1]]) 1
              (Some [0, 1, 3]) =
            fixed_step_solver_template ?S () (0, 3) (Mat [[1, 2], [0, 1]]) 1 (Some [0, 1, 3])"
    by blast
  show ?thesis unfolding e1 e2 using g v m by (intro conjI)
qed

text \<open>
  C1 (mode equivalence). The claim is that the parallel composer and the sequential template
  return the same trajectory for every valid \<open>t_span\<close>, \<open>t_eval\<close> and \<open>max_dt\<close>. On a grid
  without intervals they do not: for \<open>t_span = (0, 0)\<close> with \<open>t_eval = [0]\<close> the merged grid is
  the single breakpoint \<open>0\<close>, the loop over the intervals does not run, \<open>all_times\<close> and
  \<open>all_h\<close> stay empty Python lists, \<open>vmap\<close> has no array to map over and raises, and the
  sequential template returns \<open>y0\<close> at \<open>0\<close>.
\<close>

theorem parallel_template_empty_grid:
  "get_fixed_step_sizes (0, 0) (Some [0]) 1 = Inr ([0], [], []) \<and>
   fixed_step_lmde_solver_parallel_template_jax
     (\<lambda>g t h. Inr (Mat [[1]])) () (0, 0) (Vec [1]) 1 (Some [0]) = Inl ValueError \<and>
   fixed_step_solver_template
     (\<lambda>g t y h. arr_matmul (Inr (Mat [[1]])) (Inr y)) () (0, 0) (Vec [1]) 1 (Some [0]) =
     Inr \<lparr>ode_t = [0], ode_y = [Vec [1]]\<rparr>"
  by (simp add: bindR_def fixed_step_lmde_solver_parallel_template_jax_def parallel_ys_def
      fixed_step_solver_template_def sequential_ys_def get_fixed_step_sizes_def merge_t_args_def
      in_span_def trim_t_results_def)

lemma elementwise_error: "elementwise f a b = Inl e \<Longrightarrow> e = ValueError"
  by (auto simp: elementwise_def bindR_def bdim_def Let_def split: sum.splits if_splits)

lemma np_add_error: "np_add a b = Inl e \<Longrightarrow> e = ValueError"
  unfolding np_add_def by (rule elementwise_error)

lemma np_sub_error: "np_sub a b = Inl e \<Longrightarrow> e = ValueError"
  unfolding np_sub_def by (rule elementwise_error)

lemma np_matmul_error: "np_matmul a b = Inl e \<Longrightarrow> e = ValueError"
  by (cases a; cases b) (auto split: if_splits)

lemma np_div_scale: "np_div (np_scale h a) 2 = np_scale (h / 2) a"
  by (cases a) (simp_all add: np_div_def np_scale_def)

text \<open>
  C7 (Magnus order 2). With \<open>magnus_order = 2\<close> the returned step function samples the
  generator at \<open>t0 + (1/2 - \<surd>3/6) h\<close> and \<open>t0 + (1/2 + \<surd>3/6) h\<close> and returns the matrix exponential
  of \<open>h/2 (G1 + G2) + (\<surd>3/12) h\<^sup>2 [G2, G1]\<close>, where \<open>[A, B] = A B - B A\<close>; the state-space form
  applies this propagator to \<open>y\<close>.
\<close>

theorem magnus2_formula:
  assumes "generator (t0 + (1 / 2 - sqrt 3 / 6) * h) = Inr G1"
    and "generator (t0 + (1 / 2 + sqrt 3 / 6) * h) = Inr G2"
  shows "(let terms = arr_add (arr_scale (h / 2) (arr_add (Inr G1) (Inr G2)))
                        (arr_scale (sqrt 3 / 12 * h ^ 2)
                           (arr_sub (arr_matmul (Inr G2) (Inr G1))
                                    (arr_matmul (Inr G1) (Inr G2))))
          in bindR (get_exponential_take_step 2 expm_func True)
               (\<lambda>step. call3 step generator t0 h) = bindR terms expm_func \<and>
             bindR (get_exponential_take_step 2 expm_func False)
               (\<lambda>step. call4 step generator t0 y h) =
               arr_matmul (bindR terms expm_func) (Inr y))"
  using assms
  by (auto simp: get_exponential_take_step_def magnus2_propagator_def Let_def
        matrix_commutator_def arr_add_def arr_sub_def arr_matmul_def arr_scale_def arr_div_def
        lift2_def bindR_def np_div_scale
      split: sum.splits
      dest: np_add_error np_sub_error np_matmul_error)

text \<open>
  C4 (Magnus order 3). With \<open>magnus_order = 3\<close> the returned step function samples the
  generator at \<open>t0 + (1/2 - \<surd>15/10) h\<close>, \<open>t0 + h/2\<close> and \<open>t0 + (1/2 + \<surd>15/10) h\<close>, forms
  \<open>a1 = h G2\<close>, \<open>a2 = (\<surd>15/3) h (G3 - G1)\<close> and \<open>a3 = (10/3) h (G3 - 2 G2 + G1)\<close>, and returns the
  matrix exponential of
  \<open>a1 + a3/12 + [-20 a1 - a3 + [a1, a2], a2 + [2 a3 + [a1, a2], a1]/60] / 240\<close>, where
  \<open>[A, B] = A B - B A\<close>; the state-space form applies this propagator to \<open>y\<close>.
\<close>

theorem magnus3_formula:
  assumes "generator (t0 + (1 / 2 - sqrt 15 / 10) * h) = Inr G1"
    and "generator (t0 + (1 / 2) * h) = Inr G2"
    and "generator (t0 + (1 / 2 + sqrt 15 / 10) * h) = Inr G3"
  shows "(let comm = (\<lambda>A B. arr_sub (arr_matmul A B) (arr_matmul B A));
              a1 = arr_scale h (Inr G2);
              a2 = arr_scale (sqrt 15 / 3 * h) (arr_sub (Inr G3) (Inr G1));
              a3 = arr_scale (10 / 3 * h)
                     (arr_add (arr_sub (Inr G3) (arr_scale 2 (Inr G2))) (Inr G1));
              terms = arr_add (arr_add a1 (arr_div a3 12))
                        (arr_div (comm (arr_add (arr_sub (arr_scale (- 20) a1) a3) (comm a1 a2))
                                       (arr_add a2
                                          (arr_div (comm (arr_add (arr_scale 2 a3) (comm a1 a2))
                                                         a1) 60)))
                                 240)
          in bindR (get_exponential_take_step 3 expm_func True)
               (\<lambda>step. call3 step generator t0 h) = bindR terms expm_func \<and>
             bindR (get_exponential_take_step 3 expm_func False)
               (\<lambda>step. call4 step generator t0 y h) =
               arr_matmul (bindR terms expm_func) (Inr y))"
  using assms
  by (auto simp: get_exponential_take_step_def magnus3_propagator_def Let_def
        matrix_commutator_def arr_add_def arr_sub_def arr_matmul_def arr_scale_def arr_div_def
        lift2_def bindR_def
      split: sum.splits
      dest: np_add_error np_sub_error np_matmul_error)

lemma magnus_take_step_is_propagator:
  "bindR (get_exponential_take_step magnus_order expm_func False)
     (\<lambda>step. call4 step generator t0 y h) =
   arr_matmul (bindR (get_exponential_take_step magnus_order expm_func True)
                 (\<lambda>step. call3 step generator t0 h)) (Inr y)"
  by (simp add: get_exponential_take_step_def arr_matmul_def lift2_def)

text \<open>
  C9 (unsupported Magnus order). For a \<open>magnus_order\<close> other than 1, 2 and 3 each of the
  three matrix-exponential solvers fails, whatever the generator, the time arguments and the
  initial state are: also with a generator that raises at every time and with a \<open>t_eval\<close> that
  \<open>merge_t_args\<close> rejects, the error is that of \<open>get_exponential_take_step\<close> (or, for the two
  JAX solvers without the library, that of the decorator), so nothing has been evaluated or
  stepped. For the orders 1, 2 and 3 \<open>get_exponential_take_step\<close> returns a step function.
\<close>

theorem unsupported_magnus_order:
  assumes "magnus_order \<noteq> 1" and "magnus_order \<noteq> 2" and "magnus_order \<noteq> 3"
  shows "get_exponential_take_step magnus_order expm_func just_propagator = Inl QiskitError \<and>
         scipy_expm_solver expm_func generator t_span y0 max_dt t_eval magnus_order =
           Inl QiskitError \<and>
         jax_expm_solver jax_installed expm_func generator t_span y0 max_dt t_eval magnus_order =
           Inl (if jax_installed then QiskitError else MissingLibraryError) \<and>
         jax_expm_parallel_solver jax_installed expm_func generator t_span y0 max_dt t_eval
           magnus_order = Inl (if jax_installed then QiskitError else MissingLibraryError) \<and>
         \<not> isl (get_exponential_take_step 1 expm_func just_propagator) \<and>
         \<not> isl (get_exponential_take_step 2 expm_func just_propagator) \<and>
         \<not> isl (get_exponential_take_step 3 expm_func just_propagator)"
  using assms
  by (simp add: get_exponential_take_step_def scipy_expm_solver_def jax_expm_solver_def
        jax_expm_parallel_solver_def requires_array_library_def)

theorem unsupported_magnus_order_witness:
  "scipy_expm_solver (\<lambda>a. Inl (UserError 1)) (\<lambda>t. Inl (UserError 0)) (0, 1) (Vec [1, 0]) 1
     (Some [5]) 4 = Inl QiskitError \<and>
   jax_expm_solver True (\<lambda>a. Inl (UserError 1)) (\<lambda>t. Inl (UserError 0)) (0, 1) (Vec [1, 0]) 1
     (Some [5]) 0 = Inl QiskitError \<and>
   jax_expm_parallel_solver True (\<lambda>a. Inl (UserError 1)) (\<lambda>t. Inl (UserError 0)) (0, 1)
     (Vec [1, 0]) 1 (Some [5]) (- 1) = Inl QiskitError \<and>
   scipy_expm_solver (\<lambda>a. Inl (UserError 1)) (\<lambda>t. Inl (UserError 0)) (0, 1) (Vec [1, 0]) 1
     (Some [5]) 1 = Inl InvalidGridError"
proof -
  have v: "scipy_expm_solver (\<lambda>a. Inl (UserError 1)) (\<lambda>t. Inl (UserError 0)) (0, 1) (Vec [1, 0])
             1 (Some [5]) 1 = Inl InvalidGridError"
    by (simp add: scipy_expm_solver_def get_exponential_take_step_def
          fixed_step_solver_template_def get_fixed_step_sizes_def merge_t_args_def in_span_def)
  have a: "(4::int) \<noteq> 1" "(4::int) \<noteq> 2" "(4::int) \<noteq> 3" by simp_all
  have b: "(0::int) \<noteq> 1" "(0::int) \<noteq> 2" "(0::int) \<noteq> 3" by simp_all
  have c: "(- 1::int) \<noteq> 1" "(- 1::int) \<noteq> 2" "(- 1::int) \<noteq> 3" by simp_all
  from unsupported_magnus_order [OF a] unsupported_magnus_order [OF b]
    unsupported_magnus_order [OF c] v
  show ?thesis by simp
qed

lemmas eval_arr = arr_add_def arr_sub_def arr_matmul_def arr_scale_def arr_div_def lift2_def
  np_add_def np_sub_def elementwise_def bdim_def bidx_def mk_def from2d_def ncols_def
  np_scale_def np_div_def Let_def

theorem magnus2_formula_witness:
  "bindR (get_exponential_take_step 2 Inr True)
     (\<lambda>step. call3 step (\<lambda>t. Inr (Mat [[0, of_real t], [1, 0]])) 0 1) =
   Inr (Mat [[1 / 12, 1 / 2], [1, - (1 / 12)]])"
proof -
  have g1: "(\<lambda>t. Inr (Mat [[0, of_real t], [1, 0]])) (0 + (1 / 2 - sqrt 3 / 6) * 1) =
              Inr (Mat [[0, of_real (1 / 2 - sqrt 3 / 6)], [1, 0]])" by simp
  have g2: "(\<lambda>t. Inr (Mat [[0, of_real t], [1, 0]])) (0 + (1 / 2 + sqrt 3 / 6) * 1) =
              Inr (Mat [[0, of_real (1 / 2 + sqrt 3 / 6)], [1, 0]])" by simp
  from magnus2_formula [OF g1 g2, of Inr] show ?thesis
    by (simp add: eval_arr complex_eq_iff)
qed

theorem magnus3_formula_witness:
  "bindR (get_exponential_take_step 3 Inr True)
     (\<lambda>step. call3 step (\<lambda>t. Inr (Mat [[0, of_real t], [1, 0]])) 0 1) =
   Inr (Mat [[29 / 360, 3541 / 7200], [3601 / 3600, - (29 / 360)]])"
proof -
  have g1: "(\<lambda>t. Inr (Mat [[0, of_real t], [1, 0]])) (0 + (1 / 2 - sqrt 15 / 10) * 1) =
              Inr (Mat [[0, of_real (1 / 2 - sqrt 15 / 10)], [1, 0]])" by simp
  have g2: "(\<lambda>t. Inr (Mat [[0, of_real t], [1, 0]])) (0 + (1 / 2) * 1) =
              Inr (Mat [[0, of_real (1 / 2)], [1, 0]])" by simp
  have g3: "(\<lambda>t. Inr (Mat [[0, of_real t], [1, 0]])) (0 + (1 / 2 + sqrt 15 / 10) * 1) =
              Inr (Mat [[0, of_real (1 / 2 + sqrt 15 / 10)], [1, 0]])" by simp
  from magnus3_formula [OF g1 g2 g3, of Inr] show ?thesis
    by (simp add: eval_arr complex_eq_iff)
qed

text \<open>
  C6 (propagator-only consistency) at a column state. For the zero generator of dimension 2 and
  the initial state \<open>[[1], [0]]\<close> of shape \<open>(2, 1)\<close>, \<open>jax_RK4_parallel_solver\<close> builds the
  identity from \<open>y0.shape[-1] = 1\<close>; \<open>eye(1)\<close> broadcasts against the matrices of shape
  \<open>(2, 2)\<close>, so its step returns the matrix of ones, which maps the state to \<open>[[1], [1]]\<close>,
  while the state-space RK4 step of \<open>RK4_solver\<close> leaves the state as it is.
\<close>

theorem rk4_parallel_column_state:
  "shape_last (Mat [[1], [0]]) = Inr 1 \<and>
   jax_RK4_parallel_take_step (eye 1) (\<lambda>t. Inr (Mat [[0, 0], [0, 0]])) 0 1 =
     Inr (Mat [[1, 1], [1, 1]]) \<and>
   arr_matmul (jax_RK4_parallel_take_step (eye 1) (\<lambda>t. Inr (Mat [[0, 0], [0, 0]])) 0 1)
     (Inr (Mat [[1], [0]])) = Inr (Mat [[1], [1]]) \<and>
   RK4_take_step (\<lambda>t y. arr_matmul (Inr (Mat [[0, 0], [0, 0]])) (Inr y)) 0 (Mat [[1], [0]]) 1 =
     Inr (Mat [[1], [0]]) \<and>
   jax_RK4_parallel_solver True (\<lambda>t. Inr (Mat [[0, 0], [0, 0]])) (0, 1) (Mat [[1], [0]]) 1 None =
     Inr \<lparr>ode_t = [0, 1], ode_y = [Mat [[1], [0]], Mat [[1], [1]]]\<rparr> \<and>
   RK4_solver (\<lambda>t y. arr_matmul (Inr (Mat [[0, 0], [0, 0]])) (Inr y)) (0, 1) (Mat [[1], [0]]) 1
     None = Inr \<lparr>ode_t = [0, 1], ode_y = [Mat [[1], [0]], Mat [[1], [0]]]\<rparr>"
proof -
  have s: "shape_last (Mat [[1], [0]]) = Inr 1"
    by (simp add: shape_last_def ncols_def)
  have p: "jax_RK4_parallel_take_step (eye 1) (\<lambda>t. Inr (Mat [[0, 0], [0, 0]])) t h =
             Inr (Mat [[1, 1], [1, 1]])" for t h
    by (simp add: jax_RK4_parallel_take_step_def eye_def eval_arr)
  have p': "jax_RK4_parallel_take_step (eye (Suc 0)) (\<lambda>t. Inr (Mat [[0, 0], [0, 0]])) t h =
              Inr (Mat [[1, 1], [1, 1]])" for t h
    using p [of t h] by simp
  have m: "arr_matmul (Inr (Mat [[1, 1], [1, 1]])) (Inr (Mat [[1], [0]])) = Inr (Mat [[1], [1]])"
    by (simp add: eval_arr)
  have r: "RK4_take_step (\<lambda>t y. arr_matmul (Inr (Mat [[0, 0], [0, 0]])) (Inr y)) t
             (Mat [[1], [0]]) h = Inr (Mat [[1], [0]])" for t h
    by (simp add: RK4_take_step_def eval_arr)
  have g: "get_fixed_step_sizes (0, 1) None 1 = Inr ([0, 1], [1], [1])"
    by (simp add: get_fixed_step_sizes_def merge_t_args_def initial_n_steps_def
          correct_n_steps_def Let_def)
  have par: "jax_RK4_parallel_solver True (\<lambda>t. Inr (Mat [[0, 0], [0, 0]])) (0, 1)
               (Mat [[1], [0]]) 1 None =
             Inr \<lparr>ode_t = [0, 1], ode_y = [Mat [[1], [0]], Mat [[1], [1]]]\<rparr>"
    by (simp add: jax_RK4_parallel_solver_def requires_array_library_def s
          fixed_step_lmde_solver_parallel_template_jax_def g parallel_ys_def p'
          parallel_compose_def associative_scan_def reverse_mul_def index_array_def index1_def
          trim_t_results_def ncols_def mk_def)
  have seq: "RK4_solver (\<lambda>t y. arr_matmul (Inr (Mat [[0, 0], [0, 0]])) (Inr y)) (0, 1)
               (Mat [[1], [0]]) 1 None =
             Inr \<lparr>ode_t = [0, 1], ode_y = [Mat [[1], [0]], Mat [[1], [0]]]\<rparr>"
    by (simp add: RK4_solver_def fixed_step_solver_template_def g sequential_ys_def r
          trim_t_results_def)
  from s p [of 0 1] m r [of 0 1] par seq show ?thesis by simp
qed

lemma apply_props_mm:
  assumes "\<forall>Q \<in> set Qs. shaped n n Q" and "shaped n n P" and "conforms n y"
  shows "apply_props Qs (mm P y) = mm (apply_props Qs P) y"
  using assms(1,2)
proof (induction Qs arbitrary: P)
  case Nil
  show ?case by simp
next
  case (Cons Q Qs)
  from Cons.prems have Q: "shaped n n Q" and rest: "\<forall>Q \<in> set Qs. shaped n n Q" by simp_all
  have QP: "shaped n n (mm Q P)" using Q Cons.prems(2) by (simp add: matmul_shaped)
  have "apply_props (Q # Qs) (mm P y) = apply_props Qs (mm (mm Q P) y)"
    by (simp add: mm_assoc [OF Q Cons.prems(2) assms(3)])
  also have "\<dots> = mm (apply_props Qs (mm Q P)) y" by (rule Cons.IH [OF rest QP])
  finally show ?case by simp
qed

lemma apply_take_cumulative:
  assumes "\<forall>P \<in> set Ps. shaped n n P" and "conforms n y" and "1 \<le> j" and "j \<le> length Ps"
  shows "apply_props (take j Ps) y = mm (cumulative Ps j) y"
proof -
  from assms(3,4) obtain P rest where Ps: "Ps = P # rest" by (cases Ps) auto
  from assms(3) obtain i where j: "j = Suc i" by (cases j) auto
  from assms(1) have P: "shaped n n P" and rest: "\<forall>Q \<in> set (take i rest). shaped n n Q"
    by (auto simp: Ps dest: in_set_takeD)
  show ?thesis
    unfolding Ps j cumulative_def using apply_props_mm [OF rest P assms(2)] by simp
qed

lemma nth_scan_cumulative:
  "j < length (P # rest) \<Longrightarrow> (P # prefixes P rest) ! j = cumulative (P # rest) (Suc j)"
  using nth_prefixes [of j rest P] by (simp add: cumulative_def)

lemma parallel_compose_values:
  assumes sh: "\<forall>P \<in> set Ps. shaped n n P"
    and y: "conforms n y0"
    and locs: "\<forall>l \<in> set locs. 1 \<le> l \<and> l \<le> int (length Ps)"
  shows "(if ndim y0 = 2 \<and> shape y0 ! 0 = shape y0 ! 1
          then \<exists>outs. associative_scan reverse_mul (y0 # Ps) = Inr outs \<and> outs ! 0 = y0 \<and>
                 (\<forall>l \<in> set locs. outs ! nat l = mm (cumulative Ps (nat l)) y0) \<and>
                 parallel_compose y0 Ps (0 # locs) = Inr (map (\<lambda>l. outs ! nat l) (0 # locs))
          else \<exists>outs. associative_scan reverse_mul Ps = Inr outs \<and>
                 (\<forall>l \<in> set locs. outs ! nat (l - 1) = cumulative Ps (nat l)) \<and>
                 parallel_compose y0 Ps (0 # locs) =
                   Inr (y0 # map (\<lambda>l. mm (outs ! nat (l - 1)) y0) locs))"
proof (cases "ndim y0 = 2 \<and> shape y0 ! 0 = shape y0 ! 1")
  case True
  define outs where "outs = y0 # prefixes y0 Ps"
  have sc: "associative_scan reverse_mul (y0 # Ps) = Inr outs"
    by (simp add: associative_scan_def scan_from_eq [OF sh y] outs_def)
  have v: "outs ! nat l = mm (cumulative Ps (nat l)) y0" if l: "l \<in> set locs" for l
  proof -
    from locs l have b: "1 \<le> nat l" "nat l \<le> length Ps" by auto
    have "outs ! nat l = apply_props (take (nat l) Ps) y0"
      unfolding outs_def by (rule nth_prefixes [OF b(2)])
    also have "\<dots> = mm (cumulative Ps (nat l)) y0"
      by (rule apply_take_cumulative [OF sh y b])
    finally show ?thesis .
  qed
  have "index_array outs (0 # locs) = Inr (map (\<lambda>i. outs ! nat i) (0 # locs))"
  proof (rule index_array_eq, rule ballI)
    fix i assume "i \<in> set (0 # locs)"
    with locs show "0 \<le> i \<and> i < int (length outs)" by (auto simp: outs_def)
  qed
  with sc have "parallel_compose y0 Ps (0 # locs) = Inr (map (\<lambda>l. outs ! nat l) (0 # locs))"
    unfolding parallel_compose_def if_P [OF True] by simp
  with sc v have "\<exists>outs. associative_scan reverse_mul (y0 # Ps) = Inr outs \<and> outs ! 0 = y0 \<and>
                 (\<forall>l \<in> set locs. outs ! nat l = mm (cumulative Ps (nat l)) y0) \<and>
                 parallel_compose y0 Ps (0 # locs) = Inr (map (\<lambda>l. outs ! nat l) (0 # locs))"
    by (intro exI [of _ outs]) (simp add: outs_def)
  then show ?thesis unfolding if_P [OF True] .
next
  case False
  define outs where "outs = (case Ps of [] \<Rightarrow> [] | P # rest \<Rightarrow> P # prefixes P rest)"
  have len: "length outs = length Ps" by (cases Ps) (simp_all add: outs_def)
  have sc: "associative_scan reverse_mul Ps = Inr outs"
  proof (cases Ps)
    case Nil
    then show ?thesis by (simp add: associative_scan_def outs_def)
  next
    case (Cons P rest)
    with sh have P: "shaped n n P" and rest: "\<forall>Q \<in> set rest. shaped n n Q" by simp_all
    show ?thesis
      unfolding Cons outs_def
      by (simp add: associative_scan_def scan_from_eq [OF rest shaped_conforms [OF P]])
  qed
  have allsh: "\<forall>Q \<in> set outs. shaped n n Q"
  proof (cases Ps)
    case Nil
    then show ?thesis by (simp add: outs_def)
  next
    case (Cons P rest)
    with sh have P: "shaped n n P" and rest: "\<forall>Q \<in> set rest. shaped n n Q" by simp_all
    from prefixes_shaped [OF rest P] P show ?thesis unfolding Cons outs_def by simp
  qed
  have v: "outs ! nat (l - 1) = cumulative Ps (nat l)" if l: "l \<in> set locs" for l
  proof -
    from locs l have b: "1 \<le> l" "l \<le> int (length Ps)" by auto
    then obtain P rest where Ps: "Ps = P # rest" by (cases Ps) auto
    from b have j: "nat (l - 1) < length (P # rest)" and s: "nat l = Suc (nat (l - 1))"
      by (simp_all add: Ps)
    show ?thesis unfolding s using nth_scan_cumulative [OF j] by (simp add: outs_def Ps)
  qed
  have idx: "index_array outs (map (\<lambda>l. l - 1) locs) =
               Inr (map (\<lambda>i. outs ! nat i) (map (\<lambda>l. l - 1) locs))"
  proof (rule index_array_eq, rule ballI)
    fix i assume "i \<in> set (map (\<lambda>l. l - 1) locs)"
    then obtain l where "l \<in> set locs" "i = l - 1" by auto
    with locs show "0 \<le> i \<and> i < int (length outs)" by (auto simp: len)
  qed
  define selected where "selected = map (\<lambda>i. outs ! nat i) (map (\<lambda>l. l - 1) locs)"
  have selsh: "\<forall>Q \<in> set selected. shaped n n Q"
  proof
    fix Q assume "Q \<in> set selected"
    then obtain l where l: "l \<in> set locs" and Q: "Q = outs ! nat (l - 1)"
      unfolding selected_def by auto
    from locs l have "nat (l - 1) < length outs" by (auto simp: len)
    then have "outs ! nat (l - 1) \<in> set outs" by (rule nth_mem)
    with allsh show "shaped n n Q" unfolding Q by blast
  qed
  have mul: "sequence (map (\<lambda>P. np_matmul P y0) selected) = Inr (map (\<lambda>Q. mm Q y0) selected)"
    by (rule sequence_map_matmul [OF selsh y])
  have "map (\<lambda>Q. mm Q y0) selected = map (\<lambda>l. mm (outs ! nat (l - 1)) y0) locs"
    by (simp add: selected_def comp_def)
  with sc idx mul
  have "parallel_compose y0 Ps (0 # locs) =
          Inr (y0 # map (\<lambda>l. mm (outs ! nat (l - 1)) y0) locs)"
    unfolding parallel_compose_def if_not_P [OF False] selected_def [symmetric] by simp
  with sc v have "\<exists>outs. associative_scan reverse_mul Ps = Inr outs \<and>
                 (\<forall>l \<in> set locs. outs ! nat (l - 1) = cumulative Ps (nat l)) \<and>
                 parallel_compose y0 Ps (0 # locs) =
                   Inr (y0 # map (\<lambda>l. mm (outs ! nat (l - 1)) y0) locs)"
    by (intro exI [of _ outs]) simp
  then show ?thesis unfolding if_not_P [OF False] .
qed

lemma foldl_bindR_Inl: "foldl (\<lambda>r P. bindR r (f P)) (Inl e) Ps = Inl e"
  by (induction Ps) simp_all

lemma apply_chain_simps:
  "apply_chain [] y = Inr y"
  "apply_chain (P # Ps) y = bindR (np_matmul P y) (apply_chain Ps)"
proof -
  show "apply_chain [] y = Inr y" by (simp add: apply_chain_def)
  show "apply_chain (P # Ps) y = bindR (np_matmul P y) (apply_chain Ps)"
    by (cases "np_matmul P y") (simp_all add: apply_chain_def foldl_bindR_Inl)
qed

lemma sequence_replicate_Inl: "sequence (replicate (Suc n) (Inl e)) = Inl e"
  by simp

lemma scan_from_chain:
  "bindR (scan_from reverse_mul x Ps) (\<lambda>rest. Inr (x # rest)) =
     sequence (map (\<lambda>k. apply_chain (take k Ps) x) [0..<Suc (length Ps)])"
proof (induction Ps arbitrary: x)
  case Nil
  show ?case by (simp add: apply_chain_simps)
next
  case (Cons P Ps)
  have "[0..<Suc (Suc (length Ps))] = 0 # [Suc 0..<Suc (Suc (length Ps))]"
    by (rule upt_conv_Cons) simp
  also have "[Suc 0..<Suc (Suc (length Ps))] = map Suc [0..<Suc (length Ps)]"
    by (rule map_Suc_upt [symmetric])
  finally have upt: "[0..<Suc (Suc (length Ps))] = 0 # map Suc [0..<Suc (length Ps)]" .
  have rhs: "sequence (map (\<lambda>k. apply_chain (take k (P # Ps)) x) [0..<Suc (length (P # Ps))]) =
             bindR (sequence (map (\<lambda>k. bindR (np_matmul P x) (apply_chain (take k Ps)))
                      [0..<Suc (length Ps)])) (\<lambda>xs. Inr (x # xs))"
    unfolding length_Cons upt by (simp add: apply_chain_simps comp_def)
  have lhs: "scan_from reverse_mul x (P # Ps) =
               bindR (np_matmul P x) (\<lambda>a. bindR (scan_from reverse_mul a Ps)
                 (\<lambda>rest. Inr (a # rest)))"
    by (subst scan_from.simps) (simp only: reverse_mul_def [of x P])
  show ?case
  proof (cases "np_matmul P x")
    case (Inl e)
    have "sequence (map (\<lambda>k. bindR (np_matmul P x) (apply_chain (take k Ps)))
            [0..<Suc (length Ps)]) = Inl e"
      unfolding Inl by (simp add: upt_conv_Cons del: upt_Suc)
    then show ?thesis unfolding rhs lhs by (simp add: Inl)
  next
    case (Inr a)
    have "sequence (map (\<lambda>k. bindR (np_matmul P x) (apply_chain (take k Ps)))
            [0..<Suc (length Ps)]) =
          bindR (scan_from reverse_mul a Ps) (\<lambda>rest. Inr (a # rest))"
      unfolding Inr bindR_Inr by (rule Cons.IH [symmetric])
    then show ?thesis unfolding rhs lhs Inr bindR_Inr
      by (cases "scan_from reverse_mul a Ps") simp_all
  qed
qed

lemma associative_scan_chain:
  "associative_scan reverse_mul (x # Ps) =
     sequence (map (\<lambda>k. apply_chain (take k Ps) x) [0..<Suc (length Ps)])"
  by (simp only: associative_scan_def list.case scan_from_chain)

lemma associative_scan_chain_tl:
  "associative_scan reverse_mul Ps =
     sequence (map (\<lambda>k. apply_chain (take k (tl Ps)) (hd Ps)) [0..<length Ps])"
proof (cases Ps)
  case Nil
  then show ?thesis by (simp add: associative_scan_def)
next
  case (Cons P rest)
  show ?thesis unfolding Cons using associative_scan_chain [of P rest] by simp
qed

lemma apply_chain_eq:
  assumes "\<forall>P \<in> set Ps. shaped n n P" and "conforms n y"
  shows "apply_chain Ps y = Inr (apply_props Ps y)"
  using assms
proof (induction Ps arbitrary: y)
  case Nil
  show ?case by (simp add: apply_chain_simps)
next
  case (Cons P Ps)
  from Cons.prems have P: "shaped n n P" and rest: "\<forall>Q \<in> set Ps. shaped n n Q" by simp_all
  from matmul_conforms [OF P Cons.prems(2)]
  have m: "np_matmul P y = Inr (mm P y)" and c: "conforms n (mm P y)" by simp_all
  show ?case by (simp add: apply_chain_simps m Cons.IH [OF rest c])
qed

lemma parallel_compose_first:
  assumes "parallel_compose y0 Ps (0 # locs) = Inr ys"
  shows "hd ys = y0"
proof (cases "ndim y0 = 2 \<and> shape y0 ! 0 = shape y0 ! 1")
  case True
  from assms obtain outs where sc: "associative_scan reverse_mul (y0 # Ps) = Inr outs"
    and ix: "index_array outs (0 # locs) = Inr ys"
    unfolding parallel_compose_def if_P [OF True]
    by (cases "associative_scan reverse_mul (y0 # Ps)") simp_all
  from sc obtain rest where outs: "outs = y0 # rest"
    by (cases "scan_from reverse_mul y0 Ps") (auto simp: associative_scan_def)
  from ix show ?thesis
    unfolding outs index_array_def
    by (cases "sequence (map (index1 (y0 # rest)) locs)") (auto simp: index1_def)
next
  case False
  from assms show ?thesis
    unfolding parallel_compose_def if_not_P [OF False]
    by (auto simp: bindR_def split: sum.splits)
qed

text \<open>
  C5 (the initial condition in the parallel composer). Write \<open>apply_chain [P\<^sub>1, \<dots>, P\<^sub>k] y\<close> for
  the product \<open>P\<^sub>k @ (\<dots> @ (P\<^sub>1 @ y))\<close>, an exception of a product included. For every \<open>y0\<close>,
  all step propagators \<open>P\<^sub>1, \<dots>, P\<^sub>N\<close> and all positions: if \<open>y0\<close> is a square matrix, it is the
  first element of the scan, whose outputs at \<open>0, \<dots>, N\<close> are \<open>y0\<close> and the products
  \<open>P\<^sub>k @ (\<dots> @ (P\<^sub>1 @ y0))\<close>, and the trajectory is the outputs at the positions, with no
  further multiplication. Otherwise the scan runs over the propagators alone, with outputs
  \<open>P\<^sub>k @ (\<dots> @ (P\<^sub>2 @ P\<^sub>1))\<close> at \<open>k - 1\<close>; the outputs at the positions after the first, each
  lowered by one, are multiplied by \<open>y0\<close> from the right, and \<open>y0\<close> is put in front. In both
  branches a trajectory for positions starting with \<open>0\<close> starts with \<open>y0\<close>. When the
  propagators are square of dimension \<open>n\<close>, \<open>y0\<close> is a vector of length \<open>n\<close> or a matrix with
  \<open>n\<close> rows and the later positions lie between \<open>1\<close> and \<open>N\<close>, the scan outputs of the first
  branch are the cumulative propagators times \<open>y0\<close>, those of the second branch are the
  cumulative propagators, and the trajectory is \<open>y0\<close> followed by the cumulative propagators
  applied to \<open>y0\<close>.
\<close>

theorem parallel_compose_branches:
  "(ndim y0 = 2 \<and> shape y0 ! 0 = shape y0 ! 1 \<longrightarrow>
      parallel_compose y0 Ps locs =
        bindR (sequence (map (\<lambda>k. apply_chain (take k Ps) y0) [0..<Suc (length Ps)]))
          (\<lambda>outs. index_array outs locs)) \<and>
   (\<not> (ndim y0 = 2 \<and> shape y0 ! 0 = shape y0 ! 1) \<longrightarrow>
      parallel_compose y0 Ps locs =
        bindR (sequence (map (\<lambda>k. apply_chain (take k (tl Ps)) (hd Ps)) [0..<length Ps]))
          (\<lambda>outs.
        bindR (index_array outs (map (\<lambda>l. l - 1) (tl locs))) (\<lambda>selected.
        bindR (sequence (map (\<lambda>C. np_matmul C y0) selected)) (\<lambda>intermediate_y.
          Inr (y0 # intermediate_y))))) \<and>
   (\<forall>ys. parallel_compose y0 Ps (0 # later) = Inr ys \<longrightarrow> hd ys = y0) \<and>
   ((\<forall>P \<in> set Ps. shaped n n P) \<and> conforms n y0 \<and>
    (\<forall>l \<in> set later. 1 \<le> l \<and> l \<le> int (length Ps)) \<longrightarrow>
      (\<forall>k. 1 \<le> k \<and> k \<le> length Ps \<longrightarrow>
         apply_chain (take k Ps) y0 = Inr (mm (cumulative Ps k) y0) \<and>
         apply_chain (take (k - 1) (tl Ps)) (hd Ps) = Inr (cumulative Ps k)) \<and>
      parallel_compose y0 Ps (0 # later) =
        Inr (y0 # map (\<lambda>l. mm (cumulative Ps (nat l)) y0) later))"
proof (intro conjI impI allI)
  assume sq: "ndim y0 = 2 \<and> shape y0 ! 0 = shape y0 ! 1"
  show "parallel_compose y0 Ps locs =
        bindR (sequence (map (\<lambda>k. apply_chain (take k Ps) y0) [0..<Suc (length Ps)]))
          (\<lambda>outs. index_array outs locs)"
    unfolding parallel_compose_def if_P [OF sq] associative_scan_chain ..
next
  assume nsq: "\<not> (ndim y0 = 2 \<and> shape y0 ! 0 = shape y0 ! 1)"
  show "parallel_compose y0 Ps locs =
        bindR (sequence (map (\<lambda>k. apply_chain (take k (tl Ps)) (hd Ps)) [0..<length Ps]))
          (\<lambda>outs.
        bindR (index_array outs (map (\<lambda>l. l - 1) (tl locs))) (\<lambda>selected.
        bindR (sequence (map (\<lambda>C. np_matmul C y0) selected)) (\<lambda>intermediate_y.
          Inr (y0 # intermediate_y))))"
    unfolding parallel_compose_def if_not_P [OF nsq] associative_scan_chain_tl [symmetric] ..
next
  fix ys assume "parallel_compose y0 Ps (0 # later) = Inr ys"
  then show "hd ys = y0" by (rule parallel_compose_first)
next
  fix k
  assume h: "(\<forall>P \<in> set Ps. shaped n n P) \<and> conforms n y0 \<and>
    (\<forall>l \<in> set later. 1 \<le> l \<and> l \<le> int (length Ps))"
    and k: "1 \<le> k \<and> k \<le> length Ps"
  from h have sh: "\<forall>P \<in> set Ps. shaped n n P" and y: "conforms n y0" by simp_all
  from k have k1: "1 \<le> k" and k2: "k \<le> length Ps" by simp_all
  have sh': "\<forall>P \<in> set (take k Ps). shaped n n P" using sh by (auto dest: in_set_takeD)
  show "apply_chain (take k Ps) y0 = Inr (mm (cumulative Ps k) y0)"
    using apply_chain_eq [OF sh' y] apply_take_cumulative [OF sh y k1 k2] by simp
  from k obtain P rest where Ps: "Ps = P # rest" by (cases Ps) auto
  from sh have P: "shaped n n P" and rest: "\<forall>Q \<in> set (take (k - 1) rest). shaped n n Q"
    by (auto simp: Ps dest: in_set_takeD)
  show "apply_chain (take (k - 1) (tl Ps)) (hd Ps) = Inr (cumulative Ps k)"
    using apply_chain_eq [OF rest shaped_conforms [OF P]] by (simp add: Ps cumulative_def)
next
  assume h: "(\<forall>P \<in> set Ps. shaped n n P) \<and> conforms n y0 \<and>
    (\<forall>l \<in> set later. 1 \<le> l \<and> l \<le> int (length Ps))"
  then have sh: "\<forall>P \<in> set Ps. shaped n n P" and y: "conforms n y0"
    and locs: "\<forall>l \<in> set later. 1 \<le> l \<and> l \<le> int (length Ps)" by simp_all
  note branches = parallel_compose_values [OF sh y locs]
  show "parallel_compose y0 Ps (0 # later) =
          Inr (y0 # map (\<lambda>l. mm (cumulative Ps (nat l)) y0) later)"
  proof (cases "ndim y0 = 2 \<and> shape y0 ! 0 = shape y0 ! 1")
    case True
    with branches obtain outs where "outs ! 0 = y0"
      and "\<forall>l \<in> set later. outs ! nat l = mm (cumulative Ps (nat l)) y0"
      and "parallel_compose y0 Ps (0 # later) = Inr (map (\<lambda>l. outs ! nat l) (0 # later))"
      unfolding if_P [OF True] by blast
    then show ?thesis by simp
  next
    case False
    with branches obtain outs
      where "\<forall>l \<in> set later. outs ! nat (l - 1) = cumulative Ps (nat l)"
      and "parallel_compose y0 Ps (0 # later) =
             Inr (y0 # map (\<lambda>l. mm (outs ! nat (l - 1)) y0) later)"
      unfolding if_not_P [OF False] by blast
    then show ?thesis by simp
  qed
qed

theorem parallel_compose_branches_witness:
  "parallel_compose (Mat [[1, 2], [0, 1]]) [Mat [[1, 1], [1, 1]], Mat [[1, 2], [1, 1]]] [0, 1, 2] =
     Inr [Mat [[1, 2], [0, 1]], Mat [[1, 3], [1, 3]], Mat [[3, 9], [2, 6]]] \<and>
   parallel_compose (Vec [1, 0]) [Mat [[1, 1], [1, 1]], Mat [[1, 2], [1, 1]]] [0, 1, 2] =
     Inr [Vec [1, 0], Vec [1, 1], Vec [3, 2]] \<and>
   parallel_compose (Mat [[2]]) [Mat [[1, 1], [1, 1]], Mat [[1, 2], [1, 1]]] [0] =
     Inl ValueError"
proof -
  let ?Ps = "[Mat [[1, 1], [1, 1]], Mat [[1, 2], [1, 1]]]"
  have sh: "\<forall>P \<in> set ?Ps. shaped 2 2 P"
    by (simp add: shaped_def)
  have locs: "\<forall>l \<in> set [1, 2]. 1 \<le> l \<and> l \<le> int (length ?Ps)"
    by simp
  have y1: "conforms 2 (Mat [[1, 2], [0, 1]])" by (simp add: conforms_def ncols_def)
  have y2: "conforms 2 (Vec [1, 0])" by (simp add: conforms_def)
  have sq: "ndim (Mat [[2]]) = 2 \<and> shape (Mat [[2]]) ! 0 = shape (Mat [[2]]) ! 1"
    by (simp add: ncols_def)
  from parallel_compose_branches [of "Mat [[1, 2], [0, 1]]" ?Ps "[]" "[1, 2]" 2] sh y1 locs
  have a: "parallel_compose (Mat [[1, 2], [0, 1]]) ?Ps [0, 1, 2] =
             Inr [Mat [[1, 2], [0, 1]], Mat [[1, 3], [1, 3]], Mat [[3, 9], [2, 6]]]"
    by (simp add: cumulative_def mm_def ncols_def mk_def)
  from parallel_compose_branches [of "Vec [1, 0]" ?Ps "[]" "[1, 2]" 2] sh y2 locs
  have b: "parallel_compose (Vec [1, 0]) ?Ps [0, 1, 2] = Inr [Vec [1, 0], Vec [1, 1], Vec [3, 2]]"
    by (simp add: cumulative_def mm_def ncols_def mk_def)
  from parallel_compose_branches [of "Mat [[2]]" ?Ps "[0]"] sq
  have c: "parallel_compose (Mat [[2]]) ?Ps [0] = Inl ValueError"
    by (simp add: apply_chain_def ncols_def upt_conv_Cons del: upt_Suc)
  from a b c show ?thesis by (intro conjI)
qed

lemma apply_props_replicate:
  assumes E: "\<And>a. shaped n n (Ef a)"
    and law: "\<And>a b. mm (Ef a) (Ef b) = Ef (a + b)"
    and y: "conforms n y0"
  shows "apply_props (replicate (Suc k) (Ef h)) y0 = mm (Ef (real (Suc k) * h)) y0"
proof (induction k)
  case 0
  show ?case by simp
next
  case (Suc k)
  have "apply_props (replicate (Suc (Suc k)) (Ef h)) y0 =
          apply_props (replicate (Suc k) (Ef h) @ [Ef h]) y0"
    by (simp add: replicate_append_same)
  also have "\<dots> = mm (Ef h) (apply_props (replicate (Suc k) (Ef h)) y0)"
    by (simp only: apply_props_simps)
  also have "\<dots> = mm (Ef h) (mm (Ef (real (Suc k) * h)) y0)"
    by (simp only: Suc.IH)
  also have "\<dots> = mm (mm (Ef h) (Ef (real (Suc k) * h))) y0"
    by (rule mm_assoc [OF E E y, symmetric])
  also have "\<dots> = mm (Ef (h + real (Suc k) * h)) y0"
    by (simp only: law)
  also have "h + real (Suc k) * h = real (Suc (Suc k)) * h"
    by (simp add: algebra_simps)
  finally show ?case .
qed

text \<open>
  C8 (constant generator, Magnus order 1). Let the generator be constant, \<open>G(t) = G\<close>, let \<open>y0\<close>
  be a vector of length \<open>n\<close> or a matrix with \<open>n\<close> rows, and let the matrix exponential return
  square matrices of dimension \<open>n\<close> on the multiples of \<open>G\<close> and satisfy
  \<open>exp(a G) exp(b G) = exp((a + b) G)\<close>, as the exponential does. Then for every \<open>t_span = (t0, tf)\<close>
  and every positive \<open>max_dt\<close> the sequential solver of order 1 returns the times \<open>t0, tf\<close> and
  the values \<open>y0\<close> and \<open>exp((tf - t0) G) y0\<close>: each of the \<open>n\<close> steps multiplies by \<open>exp(h G)\<close> and
  the step sizes add up to \<open>tf - t0\<close>.
\<close>

theorem magnus1_constant_generator:
  assumes md: "0 < max_dt"
    and y: "conforms n y0"
    and E: "\<And>a. \<exists>M. expm (np_scale a G) = Inr M \<and> shaped n n M"
    and law: "\<And>a b. arr_matmul (expm (np_scale a G)) (expm (np_scale b G)) =
                       expm (np_scale (a + b) G)"
  shows "\<exists>yf. arr_matmul (expm (np_scale (tf - t0) G)) (Inr y0) = Inr yf \<and>
              scipy_expm_solver expm (\<lambda>t. Inr G) (t0, tf) y0 max_dt None 1 =
                Inr \<lparr>ode_t = [t0, tf], ode_y = [y0, yf]\<rparr>"
proof -
  define Ef where "Ef = (\<lambda>a. projr (expm (np_scale a G)))"
  have Ev: "expm (np_scale a G) = Inr (Ef a)" for a
    using E [of a] by (auto simp: Ef_def)
  have Es: "shaped n n (Ef a)" for a
    using E [of a] by (auto simp: Ef_def)
  have lawm: "mm (Ef a) (Ef b) = Ef (a + b)" for a b
    using law [of a b] by (simp add: Ev arr_matmul_def lift2_def mm_def)
  define d where "d = tf - t0"
  define k where "k = n_steps_of max_dt d"
  define h where "h = d / real k"
  from n_steps_of_pos [of max_dt d] obtain k' where k': "k = Suc k'"
    unfolding k_def by (cases "n_steps_of max_dt d") auto
  have kh: "(1 + real k') * h = d" unfolding h_def k' by simp
  have g: "get_fixed_step_sizes (t0, tf) None max_dt = Inr ([t0, tf], [h], [k])"
    by (simp add: get_fixed_step_sizes_def merge_t_args_def Let_def k_def h_def d_def
          n_steps_of_def)
  define take_step :: "generator \<Rightarrow> real \<Rightarrow> real \<Rightarrow> ndarray result"
    where "take_step = magnus1_propagator expm"
  define state_step :: "generator \<Rightarrow> real \<Rightarrow> ndarray \<Rightarrow> real \<Rightarrow> ndarray result"
    where "state_step = (\<lambda>generator t0 y h. arr_matmul (take_step generator t0 h) (Inr y))"
  have step: "get_exponential_take_step 1 expm False = Inr (TakeStep state_step)"
    by (simp add: get_exponential_take_step_def state_step_def take_step_def)
  have ts: "state_step (\<lambda>t. Inr G) t y h = arr_matmul (take_step (\<lambda>t. Inr G) t h) (Inr y)"
    for t y h by (simp add: state_step_def)
  have p: "take_step (\<lambda>t. Inr G) t h = Inr ((\<lambda>t h. Ef h) t h)" for t h
    by (simp add: take_step_def magnus1_propagator_def arr_scale_def Ev)
  have s: "shaped n n ((\<lambda>t h. Ef h) t h)" for t h :: real by (rule Es)
  have seq: "sequential_ys state_step (\<lambda>t. Inr G) y0 ([t0, tf], [h], [k]) =
               Inr (y0 # seq_values (\<lambda>t h. Ef h) y0 (zip [t0, tf] (zip [h] [k])))"
    by (rule sequential_ys_eq [where state_step = state_step and g = "\<lambda>t. Inr G"
          and take_step = take_step and propagator = "\<lambda>t h. Ef h", OF ts p s y])
  have ip: "interval_props (\<lambda>t h. Ef h) (t0, h, k) = replicate (Suc k') (Ef h)"
    unfolding interval_props_def k' prod.case by (simp only: map_replicate_const length_upt diff_zero)
  have val: "apply_props (interval_props (\<lambda>t h. Ef h) (t0, h, k)) y0 = mm (Ef d) y0"
    using apply_props_replicate [where Ef = Ef, OF Es lawm y, of k' h]
    by (simp add: ip kh)
  have yf: "arr_matmul (expm (np_scale (tf - t0) G)) (Inr y0) = Inr (mm (Ef d) y0)"
    using matmul_conforms [OF Es y, of d] by (simp add: Ev arr_matmul_def lift2_def d_def)
  have c4: "call4 (TakeStep state_step) = state_step" by (intro ext) simp
  have "scipy_expm_solver expm (\<lambda>t. Inr G) (t0, tf) y0 max_dt None 1 =
          Inr \<lparr>ode_t = [t0, tf], ode_y = [y0, mm (Ef d) y0]\<rparr>"
    by (simp add: scipy_expm_solver_def step c4 fixed_step_solver_template_def g seq val
          trim_t_results_def)
  with yf show ?thesis by blast
qed

lemma mat_power_diagonal: "mat_power [[p, 0], [0, q]] k = [[p ^ k, 0], [0, q ^ k]]"
  by (induction k) (simp_all add: mk_def)

lemma exp_series: "(\<Sum>k. p ^ k / fact k) = exp (p::complex)"
proof -
  have "(\<lambda>k. p ^ k / fact k) = (\<lambda>k. p ^ k /\<^sub>R fact k)"
    by (simp add: scaleR_conv_of_real divide_inverse mult.commute)
  then show ?thesis by (simp add: exp_def)
qed

lemma expm_series_diagonal:
  "expm_series (Mat [[p, 0], [0, q]]) = Inr (Mat [[exp p, 0], [0, exp q]])"
  by (simp add: expm_series_def ncols_def mat_power_diagonal mk_def exp_series)

lemma exp_minus_i_pi: "exp (- (\<i> * complex_of_real pi)) = - 1"
  by (simp add: exp_minus)

text \<open>
  The scenario of the spec: for \<open>G = -\<i> \<pi> Z\<close> with the Pauli matrix \<open>Z\<close>, \<open>y0 = [1, 0]\<close>,
  \<open>t_span = (0, 1)\<close> and \<open>max_dt = 0.01\<close> the solver with the exponential series ends at
  \<open>[-1, 0]\<close>.
\<close>

theorem magnus1_constant_generator_witness:
  "scipy_expm_solver expm_series
     (\<lambda>t. Inr (Mat [[- (\<i> * complex_of_real pi), 0], [0, \<i> * complex_of_real pi]]))
     (0, 1) (Vec [1, 0]) (1 / 100) None 1 =
   Inr \<lparr>ode_t = [0, 1], ode_y = [Vec [1, 0], Vec [- 1, 0]]\<rparr>"
proof -
  let ?G = "Mat [[- (\<i> * complex_of_real pi), 0], [0, \<i> * complex_of_real pi]]"
  have md: "(0::real) < 1 / 100" by simp
  have y: "conforms 2 (Vec [1, 0])" by (simp add: conforms_def)
  have ex: "expm_series (np_scale a ?G) =
              Inr (Mat [[exp (- (complex_of_real a * (\<i> * complex_of_real pi))), 0],
                        [0, exp (complex_of_real a * (\<i> * complex_of_real pi))]])" for a
    by (simp add: np_scale_def expm_series_diagonal)
  have E: "\<exists>M. expm_series (np_scale a ?G) = Inr M \<and> shaped 2 2 M" for a
    by (simp add: ex shaped_def)
  have law: "arr_matmul (expm_series (np_scale a ?G)) (expm_series (np_scale b ?G)) =
               expm_series (np_scale (a + b) ?G)" for a b
    by (simp add: ex arr_matmul_def lift2_def ncols_def mk_def exp_add [symmetric]
          algebra_simps)
  from magnus1_constant_generator [where expm = expm_series and G = ?G and n = 2
      and ?y0.0 = "Vec [1, 0]" and ?t0.0 = 0 and tf = 1, OF md y E law]
  obtain yf where yf: "arr_matmul (expm_series (np_scale (1 - 0) ?G)) (Inr (Vec [1, 0])) = Inr yf"
    and r: "scipy_expm_solver expm_series (\<lambda>t. Inr ?G) (0, 1) (Vec [1, 0]) (1 / 100) None 1 =
              Inr \<lparr>ode_t = [0, 1], ode_y = [Vec [1, 0], yf]\<rparr>"
    by blast
  have "arr_matmul (expm_series (np_scale (1 - 0) ?G)) (Inr (Vec [1, 0])) = Inr (Vec [- 1, 0])"
    by (simp add: ex arr_matmul_def lift2_def ncols_def exp_minus)
  with yf have "yf = Vec [- 1, 0]" by simp
  with r show ?thesis by simp
qed

end
